theory Spec2Isabelle
  imports Main "HOL-Library.Monad_Syntax"
begin

section \<open>The readers-writers monitor (class rw\_monitor)\<close>

text \<open>
  The four counters of the monitor are C++ \<^verbatim>\<open>int\<close>s. They count threads, so they stay far
  from the ends of the 32-bit range and are modelled as unbounded signed integers; a
  negative value is representable, as it is in the source.
\<close>

record rw_monitor =
  num_readers :: int
  num_writers :: int
  readers_wait :: int
  writers_wait :: int

text \<open>The constructor \<^verbatim>\<open>rw_monitor()\<close>.\<close>

definition rw_monitor_init :: rw_monitor where
  "rw_monitor_init =
     \<lparr>num_readers = 0, num_writers = 0, readers_wait = 0, writers_wait = 0\<rparr>"

text \<open>The two condition variables and the calls that wake threads blocked on them.\<close>

datatype cond = can_read | can_write

datatype wake = Signal cond | Broadcast cond

text \<open>
  Every method body runs between \<^verbatim>\<open>pthread_mutex_lock\<close> and \<^verbatim>\<open>pthread_mutex_unlock\<close> of
  \<^verbatim>\<open>cond_lock\<close>, and \<^verbatim>\<open>pthread_cond_wait\<close> releases the mutex while the caller is blocked.
  A method that may wait is therefore two atomic sections: the entry, up to the wait (or
  to the end, when the caller does not wait), and the resumption after the wait.

  \<^verbatim>\<open>end_read\<close>: \<^verbatim>\<open>if (num_readers-- == 0) pthread_cond_signal(&can_write);\<close>  The
  post-decrement compares the value the counter had before the decrement. The result is
  the new monitor and the wake-up calls issued.
\<close>

definition end_read :: "rw_monitor \<Rightarrow> rw_monitor \<times> wake list" where
  "end_read m =
     (m\<lparr>num_readers := num_readers m - 1\<rparr>,
      if num_readers m = 0 then [Signal can_write] else [])"

text \<open>
  \<^verbatim>\<open>begin_read\<close>: the entry section either registers the caller as waiting (result
  \<open>True\<close>: the caller blocks on \<^verbatim>\<open>can_read\<close>) or admits it. The resumption runs what
  follows \<^verbatim>\<open>pthread_cond_wait\<close>: the condition is not tested again. After the unlock the
  caller broadcasts \<^verbatim>\<open>can_read\<close>.
\<close>

definition begin_read_entry :: "rw_monitor \<Rightarrow> rw_monitor \<times> bool" where
  "begin_read_entry m =
     (if num_writers m = 1 \<or> writers_wait m > 0
      then (m\<lparr>readers_wait := readers_wait m + 1\<rparr>, True)
      else (m\<lparr>num_readers := num_readers m + 1\<rparr>, False))"

definition begin_read_resume :: "rw_monitor \<Rightarrow> rw_monitor" where
  "begin_read_resume m =
     m\<lparr>readers_wait := readers_wait m - 1, num_readers := num_readers m + 1\<rparr>"

text \<open>\<^verbatim>\<open>begin_write\<close>, in the same two sections.\<close>

definition begin_write_entry :: "rw_monitor \<Rightarrow> rw_monitor \<times> bool" where
  "begin_write_entry m =
     (if num_writers m = 1 \<or> num_readers m > 0
      then (m\<lparr>writers_wait := writers_wait m + 1\<rparr>, True)
      else (m\<lparr>num_writers := 1\<rparr>, False))"

definition begin_write_resume :: "rw_monitor \<Rightarrow> rw_monitor" where
  "begin_write_resume m = m\<lparr>writers_wait := writers_wait m - 1, num_writers := 1\<rparr>"

text \<open>\<^verbatim>\<open>end_write\<close>.\<close>

definition end_write :: "rw_monitor \<Rightarrow> rw_monitor \<times> wake list" where
  "end_write m =
     (m\<lparr>num_writers := 0\<rparr>,
      if readers_wait m > 0 then [Signal can_read] else [Signal can_write])"

subsection \<open>Threads calling the monitor\<close>

text \<open>
  Where a thread stands with respect to the monitor. A thread blocked in
  \<^verbatim>\<open>pthread_cond_wait\<close> is \<open>BlockedOn c\<close>; once signalled it is \<open>WokenOn c\<close> and runs its
  resumption when it gets the mutex back, which other threads may take first. A reader
  that has been admitted and has released the mutex still has its broadcast to issue
  (\<open>Admitted\<close>) before \<^verbatim>\<open>begin_read\<close> returns.
\<close>

datatype pc = Idle | BlockedOn cond | WokenOn cond | Admitted | Reading | Writing

record system =
  mon :: rw_monitor
  pcs :: "pc list"

definition system_init :: "nat \<Rightarrow> system" where
  "system_init n = \<lparr>mon = rw_monitor_init, pcs = replicate n Idle\<rparr>"

text \<open>
  \<^verbatim>\<open>pthread_cond_signal\<close> unblocks one thread blocked on the condition variable, when
  there is one; the scheduler's choice \<open>w\<close> is part of the step. \<^verbatim>\<open>pthread_cond_broadcast\<close>
  unblocks all of them. A step whose choice does not fit the state is not a step (\<open>None\<close>).
\<close>

definition deliver :: "wake list \<Rightarrow> nat option \<Rightarrow> pc list \<Rightarrow> pc list option" where
  "deliver ws w ps =
     (case ws of
        [] \<Rightarrow> (if w = None then Some ps else None)
      | Signal c # _ \<Rightarrow>
          (case w of
             None \<Rightarrow> (if BlockedOn c \<in> set ps then None else Some ps)
           | Some u \<Rightarrow>
               (if u < length ps \<and> ps ! u = BlockedOn c then Some (ps[u := WokenOn c])
                else None))
      | Broadcast c # _ \<Rightarrow>
          (if w = None
           then Some (map (\<lambda>p. if p = BlockedOn c then WokenOn c else p) ps)
           else None))"

datatype action =
    BeginRead nat
  | BeginWrite nat
  | Resume nat
  | Announce nat
  | EndRead nat "nat option"
  | EndWrite nat "nat option"

definition step :: "action \<Rightarrow> system \<Rightarrow> system option" where
  "step a s =
     (case a of
        BeginRead t \<Rightarrow>
          (if t < length (pcs s) \<and> pcs s ! t = Idle
           then (case begin_read_entry (mon s) of
                   (m, blocked) \<Rightarrow>
                     Some \<lparr>mon = m,
                           pcs = (pcs s)[t := (if blocked then BlockedOn can_read else Admitted)]\<rparr>)
           else None)
      | BeginWrite t \<Rightarrow>
          (if t < length (pcs s) \<and> pcs s ! t = Idle
           then (case begin_write_entry (mon s) of
                   (m, blocked) \<Rightarrow>
                     Some \<lparr>mon = m,
                           pcs = (pcs s)[t := (if blocked then BlockedOn can_write else Writing)]\<rparr>)
           else None)
      | Resume t \<Rightarrow>
          (if t < length (pcs s) \<and> pcs s ! t = WokenOn can_read
           then Some \<lparr>mon = begin_read_resume (mon s), pcs = (pcs s)[t := Admitted]\<rparr>
           else if t < length (pcs s) \<and> pcs s ! t = WokenOn can_write
           then Some \<lparr>mon = begin_write_resume (mon s), pcs = (pcs s)[t := Writing]\<rparr>
           else None)
      | Announce t \<Rightarrow>
          (if t < length (pcs s) \<and> pcs s ! t = Admitted
           then (case deliver [Broadcast can_read] None ((pcs s)[t := Reading]) of
                   None \<Rightarrow> None
                 | Some ps \<Rightarrow> Some \<lparr>mon = mon s, pcs = ps\<rparr>)
           else None)
      | EndRead t w \<Rightarrow>
          (if t < length (pcs s) \<and> pcs s ! t = Reading
           then (case end_read (mon s) of
                   (m, ws) \<Rightarrow>
                     (case deliver ws w ((pcs s)[t := Idle]) of
                        None \<Rightarrow> None
                      | Some ps \<Rightarrow> Some \<lparr>mon = m, pcs = ps\<rparr>))
           else None)
      | EndWrite t w \<Rightarrow>
          (if t < length (pcs s) \<and> pcs s ! t = Writing
           then (case end_write (mon s) of
                   (m, ws) \<Rightarrow>
                     (case deliver ws w ((pcs s)[t := Idle]) of
                        None \<Rightarrow> None
                      | Some ps \<Rightarrow> Some \<lparr>mon = m, pcs = ps\<rparr>))
           else None))"

fun run :: "action list \<Rightarrow> system \<Rightarrow> system option" where
  "run [] s = Some s"
| "run (a # as) s = (case step a s of None \<Rightarrow> None | Some s' \<Rightarrow> run as s')"

text \<open>
  Mutual exclusion: at most one thread is writing, and while one is, no thread is
  reading and the active-reader count is zero.
\<close>

definition exclusive :: "system \<Rightarrow> bool" where
  "exclusive s =
     (count_list (pcs s) Writing \<le> 1 \<and>
      (if Writing \<in> set (pcs s)
       then Reading \<notin> set (pcs s) \<and> num_readers (mon s) = 0 else True))"

section \<open>The tree in memory\<close>

text \<open>
  A \<^verbatim>\<open>node*\<close> is an address or \<^verbatim>\<open>NULL\<close> (\<open>None\<close>). The field \<^verbatim>\<open>color\<close> is a \<^verbatim>\<open>bool\<close>
  that holds a value of \<^verbatim>\<open>enum Color { red, black }\<close>: \<^verbatim>\<open>red\<close> is 0 (\<open>False\<close>) and
  \<^verbatim>\<open>black\<close> is 1 (\<open>True\<close>). Keys are only copied and compared, never computed with, so
  the C++ \<^verbatim>\<open>int\<close> is modelled as an integer.
\<close>

type_synonym node_p = "nat option"

abbreviation (input) red :: bool where
  "red \<equiv> False"

abbreviation (input) black :: bool where
  "black \<equiv> True"

record node =
  key :: int
  parent :: node_p
  left :: node_p
  right :: node_p
  color :: bool

text \<open>\<^verbatim>\<open>struct tmp_node\<close>: an entry of the bulk-load input.\<close>

record tmp_node =
  t_key :: int
  t_color :: bool

text \<open>
  The free store maps the addresses of the live nodes to their contents. Reading or
  writing through \<^verbatim>\<open>NULL\<close> or through the address of a destroyed node has no defined
  behaviour: the result is \<open>None\<close>, and every function below that dereferences a pointer
  returns an \<open>option\<close>. For the recursive functions and loops \<open>None\<close> is also the
  result of a call that does not return.
\<close>

type_synonym heap = "nat \<rightharpoonup> node"

definition deref :: "heap \<Rightarrow> node_p \<Rightarrow> node option" where
  "deref h p = (case p of None \<Rightarrow> None | Some a \<Rightarrow> h a)"

definition upd :: "node_p \<Rightarrow> (node \<Rightarrow> node) \<Rightarrow> heap \<Rightarrow> heap option" where
  "upd p f h =
     (case p of
        None \<Rightarrow> None
      | Some a \<Rightarrow> (case h a of None \<Rightarrow> None | Some n \<Rightarrow> Some (h(a \<mapsto> f n))))"

text \<open>
  \<^verbatim>\<open>class RBTree\<close>: the members \<^verbatim>\<open>root\<close>, \<^verbatim>\<open>last\<close>, \<^verbatim>\<open>tmp_tree\<close> and \<^verbatim>\<open>prefix_tree\<close>, together
  with what the methods reach through them: the free store, the next address
  \<^verbatim>\<open>new\<close> hands out (every address from \<open>fresh\<close> on is unused), and the text written to
  \<^verbatim>\<open>cout\<close>. No constructor initialises \<^verbatim>\<open>last\<close>: \<open>None\<close> is the pointer that was never
  assigned. A \<^verbatim>\<open>tmp_node\<close> is never written after it is parsed, so \<^verbatim>\<open>last\<close> holds the entry
  itself.

  The last field, \<open>calls\<close>, is not data of the program. It lists the calls of
  \<^verbatim>\<open>delete_helper\<close> and \<^verbatim>\<open>fix_double_black\<close> in the order they were entered, each with
  its argument, so that the depth of their recursion can be stated; nothing reads it.
\<close>

datatype call = Delete_helper node_p | Fix_double_black node_p

record RBTree =
  root :: node_p
  last_tmp :: "tmp_node option"
  tmp_tree :: "tmp_node list"
  prefix_tree :: string
  heap :: heap
  fresh :: nat
  cout :: string
  calls :: "call list"

definition RBTree_new :: "tmp_node list \<Rightarrow> RBTree" where
  "RBTree_new t_rbt =
     \<lparr>root = None, last_tmp = None, tmp_tree = t_rbt, prefix_tree = [],
      heap = Map.empty, fresh = 0, cout = [], calls = []\<rparr>"

definition rd :: "RBTree \<Rightarrow> node_p \<Rightarrow> node option" where
  "rd s p = deref (heap s) p"

definition wr :: "node_p \<Rightarrow> (node \<Rightarrow> node) \<Rightarrow> RBTree \<Rightarrow> RBTree option" where
  "wr p f s = (case upd p f (heap s) of None \<Rightarrow> None | Some h \<Rightarrow> Some (s\<lparr>heap := h\<rparr>))"

text \<open>\<^verbatim>\<open>new node(key)\<close>: the constructor makes a red node with no links.\<close>

definition new_node :: "int \<Rightarrow> RBTree \<Rightarrow> node_p \<times> RBTree" where
  "new_node k s =
     (Some (fresh s),
      s\<lparr>heap := (heap s)(fresh s \<mapsto>
            \<lparr>key = k, parent = None, left = None, right = None, color = red\<rparr>),
        fresh := Suc (fresh s)\<rparr>)"

text \<open>\<^verbatim>\<open>delete n\<close> for a node that is not \<^verbatim>\<open>NULL\<close>.\<close>

definition free :: "node_p \<Rightarrow> RBTree \<Rightarrow> RBTree" where
  "free p s = (case p of None \<Rightarrow> s | Some a \<Rightarrow> s\<lparr>heap := (heap s)(a := None)\<rparr>)"

subsection \<open>Decimal output of a key\<close>

text \<open>\<^verbatim>\<open>to_string\<close> and \<^verbatim>\<open>operator<<\<close> write an \<^verbatim>\<open>int\<close> in decimal, with a minus sign.\<close>

fun digits :: "nat \<Rightarrow> string" where
  "digits n =
     (if n < 10 then [''0123456789'' ! n]
      else digits (n div 10) @ [''0123456789'' ! (n mod 10)])"

declare digits.simps [simp del]

definition to_string :: "int \<Rightarrow> string" where
  "to_string i = (if i < 0 then CHR ''-'' # digits (nat (- i)) else digits (nat i))"

subsection \<open>Search\<close>

partial_function (option) search_helper :: "heap \<Rightarrow> node_p \<Rightarrow> int \<Rightarrow> node_p option" where
  "search_helper h nd k =
     (if nd = None then Some nd
      else do {
        n \<leftarrow> deref h nd;
        if k = key n then Some nd
        else if k < key n then search_helper h (left n) k
        else search_helper h (right n) k
      })"

declare search_helper.simps [code]

definition search_tree :: "int \<Rightarrow> RBTree \<Rightarrow> node_p option" where
  "search_tree k s = search_helper (heap s) (root s) k"

subsection \<open>Rotations\<close>

definition rotate_right :: "node_p \<Rightarrow> RBTree \<Rightarrow> RBTree option" where
  "rotate_right nd s = do {
     n \<leftarrow> rd s nd;
     let lft = left n;
     l \<leftarrow> rd s lft;
     s \<leftarrow> wr nd (\<lambda>x. x\<lparr>left := right l\<rparr>) s;
     n \<leftarrow> rd s nd;
     s \<leftarrow> (if left n \<noteq> None then wr (left n) (\<lambda>x. x\<lparr>parent := nd\<rparr>) s else Some s);
     n \<leftarrow> rd s nd;
     s \<leftarrow> wr lft (\<lambda>x. x\<lparr>parent := parent n\<rparr>) s;
     n \<leftarrow> rd s nd;
     s \<leftarrow> (if parent n = None then Some (s\<lparr>root := lft\<rparr>)
          else do {
            p \<leftarrow> rd s (parent n);
            if nd = left p then wr (parent n) (\<lambda>x. x\<lparr>left := lft\<rparr>) s
            else wr (parent n) (\<lambda>x. x\<lparr>right := lft\<rparr>) s
          });
     s \<leftarrow> wr lft (\<lambda>x. x\<lparr>right := nd\<rparr>) s;
     wr nd (\<lambda>x. x\<lparr>parent := lft\<rparr>) s
   }"

definition rotate_left :: "node_p \<Rightarrow> RBTree \<Rightarrow> RBTree option" where
  "rotate_left nd s = do {
     n \<leftarrow> rd s nd;
     let rgt = right n;
     r \<leftarrow> rd s rgt;
     s \<leftarrow> wr nd (\<lambda>x. x\<lparr>right := left r\<rparr>) s;
     n \<leftarrow> rd s nd;
     s \<leftarrow> (if right n \<noteq> None then wr (right n) (\<lambda>x. x\<lparr>parent := nd\<rparr>) s else Some s);
     n \<leftarrow> rd s nd;
     s \<leftarrow> wr rgt (\<lambda>x. x\<lparr>parent := parent n\<rparr>) s;
     n \<leftarrow> rd s nd;
     s \<leftarrow> (if parent n = None then Some (s\<lparr>root := rgt\<rparr>)
          else do {
            p \<leftarrow> rd s (parent n);
            if nd = left p then wr (parent n) (\<lambda>x. x\<lparr>left := rgt\<rparr>) s
            else wr (parent n) (\<lambda>x. x\<lparr>right := rgt\<rparr>) s
          });
     s \<leftarrow> wr rgt (\<lambda>x. x\<lparr>left := nd\<rparr>) s;
     wr nd (\<lambda>x. x\<lparr>parent := rgt\<rparr>) s
   }"

subsection \<open>Insertion\<close>

partial_function (option) insert_helper ::
    "node_p \<Rightarrow> node_p \<Rightarrow> heap \<Rightarrow> (node_p \<times> heap) option" where
  "insert_helper rt nd h =
     (if rt = None then Some (nd, h)
      else do {
        n \<leftarrow> deref h nd;
        r \<leftarrow> deref h rt;
        if key n < key r then do {
          (res, h) \<leftarrow> insert_helper (left r) nd h;
          h \<leftarrow> upd rt (\<lambda>x. x\<lparr>left := res\<rparr>) h;
          r \<leftarrow> deref h rt;
          h \<leftarrow> upd (left r) (\<lambda>x. x\<lparr>parent := rt\<rparr>) h;
          Some (rt, h)
        }
        else if key n > key r then do {
          (res, h) \<leftarrow> insert_helper (right r) nd h;
          h \<leftarrow> upd rt (\<lambda>x. x\<lparr>right := res\<rparr>) h;
          r \<leftarrow> deref h rt;
          h \<leftarrow> upd (right r) (\<lambda>x. x\<lparr>parent := rt\<rparr>) h;
          Some (rt, h)
        }
        else Some (rt, h)
      })"

declare insert_helper.simps [code]

text \<open>
  The test of the \<^verbatim>\<open>while\<close> loop of \<^verbatim>\<open>fix_insert\<close>, with the short-circuit of \<^verbatim>\<open>&&\<close>:
  \<^verbatim>\<open>(node != root) && (node->color != black) && (node->parent->color == red)\<close>.
\<close>

definition fix_insert_cond :: "node_p \<Rightarrow> RBTree \<Rightarrow> bool option" where
  "fix_insert_cond nd s =
     (if nd \<noteq> root s then do {
        n \<leftarrow> rd s nd;
        if color n \<noteq> black then do {
          p \<leftarrow> rd s (parent n);
          Some (color p = red)
        }
        else Some False
      }
      else Some False)"

text \<open>
  \<^verbatim>\<open>fix_insert\<close>: each call is one test of the loop and, when it holds, one run of the body
  followed by the rest of the loop; when the loop ends the root is made black. The
  caller does not use \<^verbatim>\<open>node\<close> afterwards, so only the tree is returned.
\<close>

partial_function (option) fix_insert :: "node_p \<Rightarrow> RBTree \<Rightarrow> RBTree option" where
  "fix_insert nd s = do {
     c \<leftarrow> fix_insert_cond nd s;
     if c then do {
       n \<leftarrow> rd s nd;
       let par = parent n;
       p \<leftarrow> rd s par;
       let grand_parent = parent p;
       g \<leftarrow> rd s grand_parent;
       if par = left g then do {
         let uncle = right g;
         u_red \<leftarrow> (if uncle \<noteq> None then do { u \<leftarrow> rd s uncle; Some (color u = red) }
                   else Some False);
         if u_red then do {
           s \<leftarrow> wr grand_parent (\<lambda>x. x\<lparr>color := red\<rparr>) s;
           s \<leftarrow> wr par (\<lambda>x. x\<lparr>color := black\<rparr>) s;
           s \<leftarrow> wr uncle (\<lambda>x. x\<lparr>color := black\<rparr>) s;
           fix_insert grand_parent s
         }
         else do {
           p \<leftarrow> rd s par;
           (par, s) \<leftarrow> (if nd = right p then do {
                          s \<leftarrow> rotate_left par s;
                          n \<leftarrow> rd s par;
                          Some (parent n, s)
                        }
                        else Some (par, s));
           s \<leftarrow> rotate_right grand_parent s;
           s \<leftarrow> wr par (\<lambda>x. x\<lparr>color := black\<rparr>) s;
           s \<leftarrow> wr grand_parent (\<lambda>x. x\<lparr>color := red\<rparr>) s;
           fix_insert par s
         }
       }
       else do {
         let uncle = left g;
         u_red \<leftarrow> (if uncle \<noteq> None then do { u \<leftarrow> rd s uncle; Some (color u = red) }
                   else Some False);
         if u_red then do {
           s \<leftarrow> wr grand_parent (\<lambda>x. x\<lparr>color := red\<rparr>) s;
           s \<leftarrow> wr par (\<lambda>x. x\<lparr>color := black\<rparr>) s;
           s \<leftarrow> wr uncle (\<lambda>x. x\<lparr>color := black\<rparr>) s;
           fix_insert grand_parent s
         }
         else do {
           p \<leftarrow> rd s par;
           (par, s) \<leftarrow> (if nd = left p then do {
                          s \<leftarrow> rotate_right par s;
                          n \<leftarrow> rd s par;
                          Some (parent n, s)
                        }
                        else Some (par, s));
           s \<leftarrow> rotate_left grand_parent s;
           s \<leftarrow> wr par (\<lambda>x. x\<lparr>color := black\<rparr>) s;
           s \<leftarrow> wr grand_parent (\<lambda>x. x\<lparr>color := red\<rparr>) s;
           fix_insert par s
         }
       }
     }
     else wr (root s) (\<lambda>x. x\<lparr>color := black\<rparr>) s
   }"

declare fix_insert.simps [code]

definition insert_node :: "int \<Rightarrow> RBTree \<Rightarrow> RBTree option" where
  "insert_node k s = do {
     found \<leftarrow> search_tree k s;
     if found = None then do {
       let (npt, s) = new_node k s;
       (rt, h) \<leftarrow> insert_helper (root s) npt (heap s);
       let s = s\<lparr>root := rt, heap := h\<rparr>;
       fix_insert npt s
     }
     else Some s
   }"

subsection \<open>Deletion\<close>

definition red_child :: "heap \<Rightarrow> node_p \<Rightarrow> bool option" where
  "red_child h nd = do {
     n \<leftarrow> deref h nd;
     a \<leftarrow> (if left n \<noteq> None then do { l \<leftarrow> deref h (left n); Some (color l = red) }
          else Some False);
     if a then Some True
     else if right n \<noteq> None then do { r \<leftarrow> deref h (right n); Some (color r = red) }
     else Some False
   }"

definition is_on_left :: "heap \<Rightarrow> node_p \<Rightarrow> bool option" where
  "is_on_left h nd = do {
     n \<leftarrow> deref h nd;
     p \<leftarrow> deref h (parent n);
     Some (nd = left p)
   }"

definition sibling :: "heap \<Rightarrow> node_p \<Rightarrow> node_p option" where
  "sibling h nd = do {
     n \<leftarrow> deref h nd;
     if parent n = None then Some None
     else do {
       on_left \<leftarrow> is_on_left h nd;
       p \<leftarrow> deref h (parent n);
       if on_left then Some (right p) else Some (left p)
     }
   }"

text \<open>\<^verbatim>\<open>min\<close>: the loop \<^verbatim>\<open>while(tmp->left != NULL) tmp = tmp->left;\<close>\<close>

partial_function (option) min_node :: "heap \<Rightarrow> node_p \<Rightarrow> node_p option" where
  "min_node h tmp = do {
     t \<leftarrow> deref h tmp;
     if left t \<noteq> None then min_node h (left t) else Some tmp
   }"

declare min_node.simps [code]

definition swap_keys :: "node_p \<Rightarrow> node_p \<Rightarrow> heap \<Rightarrow> heap option" where
  "swap_keys u v h = do {
     nu \<leftarrow> deref h u;
     let tmp = key nu;
     nv \<leftarrow> deref h v;
     h \<leftarrow> upd u (\<lambda>x. x\<lparr>key := key nv\<rparr>) h;
     upd v (\<lambda>x. x\<lparr>key := tmp\<rparr>) h
   }"

definition replace :: "heap \<Rightarrow> node_p \<Rightarrow> node_p option" where
  "replace h nd = do {
     n \<leftarrow> deref h nd;
     if left n \<noteq> None \<and> right n \<noteq> None then min_node h (right n)
     else if left n = None \<and> right n = None then Some None
     else if left n \<noteq> None then Some (left n)
     else Some (right n)
   }"

partial_function (option) fix_double_black :: "node_p \<Rightarrow> RBTree \<Rightarrow> RBTree option" where
  "fix_double_black nd s = do {
     let s = s\<lparr>calls := calls s @ [Fix_double_black nd]\<rparr>;
     if nd = root s then Some s
     else do {
       sib \<leftarrow> sibling (heap s) nd;
       n \<leftarrow> rd s nd;
       let par = parent n;
       if sib = None then fix_double_black par s
       else do {
         sb \<leftarrow> rd s sib;
         if color sb = red then do {
           s \<leftarrow> wr par (\<lambda>x. x\<lparr>color := red\<rparr>) s;
           s \<leftarrow> wr sib (\<lambda>x. x\<lparr>color := black\<rparr>) s;
           on_left \<leftarrow> is_on_left (heap s) sib;
           s \<leftarrow> (if on_left then rotate_right par s else rotate_left par s);
           fix_double_black nd s
         }
         else do {
           rc \<leftarrow> red_child (heap s) sib;
           if rc then do {
             sb \<leftarrow> rd s sib;
             l_red \<leftarrow> (if left sb \<noteq> None
                       then do { l \<leftarrow> rd s (left sb); Some (color l = red) }
                       else Some False);
             s \<leftarrow> (if l_red then do {
                    on_left \<leftarrow> is_on_left (heap s) sib;
                    if on_left then do {
                      sb \<leftarrow> rd s sib;
                      s \<leftarrow> wr (left sb) (\<lambda>x. x\<lparr>color := color sb\<rparr>) s;
                      p \<leftarrow> rd s par;
                      s \<leftarrow> wr sib (\<lambda>x. x\<lparr>color := color p\<rparr>) s;
                      rotate_right par s
                    }
                    else do {
                      sb \<leftarrow> rd s sib;
                      p \<leftarrow> rd s par;
                      s \<leftarrow> wr (left sb) (\<lambda>x. x\<lparr>color := color p\<rparr>) s;
                      s \<leftarrow> rotate_right sib s;
                      rotate_left par s
                    }
                  }
                  else do {
                    on_left \<leftarrow> is_on_left (heap s) sib;
                    if on_left then do {
                      sb \<leftarrow> rd s sib;
                      p \<leftarrow> rd s par;
                      s \<leftarrow> wr (right sb) (\<lambda>x. x\<lparr>color := color p\<rparr>) s;
                      s \<leftarrow> rotate_left sib s;
                      rotate_right par s
                    }
                    else do {
                      sb \<leftarrow> rd s sib;
                      s \<leftarrow> wr (right sb) (\<lambda>x. x\<lparr>color := color sb\<rparr>) s;
                      p \<leftarrow> rd s par;
                      s \<leftarrow> wr sib (\<lambda>x. x\<lparr>color := color p\<rparr>) s;
                      rotate_left par s
                    }
                  });
             wr par (\<lambda>x. x\<lparr>color := black\<rparr>) s
           }
           else do {
             s \<leftarrow> wr sib (\<lambda>x. x\<lparr>color := red\<rparr>) s;
             p \<leftarrow> rd s par;
             if color p = black then fix_double_black par s
             else wr par (\<lambda>x. x\<lparr>color := black\<rparr>) s
           }
         }
       }
     }
   }"

declare fix_double_black.simps [code]

text \<open>
  \<^verbatim>\<open>delete_helper\<close>. The flag \<^verbatim>\<open>bb\<close> is
  \<^verbatim>\<open>((m == NULL || m->color == black) && (n->color == black))\<close>, and \<^verbatim>\<open>parent\<close> is read
  once, before anything is changed.
\<close>

partial_function (option) delete_helper :: "node_p \<Rightarrow> RBTree \<Rightarrow> RBTree option" where
  "delete_helper n s = do {
     let s = s\<lparr>calls := calls s @ [Delete_helper n]\<rparr>;
     m \<leftarrow> replace (heap s) n;
     m_black \<leftarrow> (if m = None then Some True
                 else do { mm \<leftarrow> rd s m; Some (color mm = black) });
     bb \<leftarrow> (if m_black then do { nn \<leftarrow> rd s n; Some (color nn = black) } else Some False);
     nn \<leftarrow> rd s n;
     let par = parent nn;
     if m = None then do {
       s \<leftarrow> (if n = root s then Some (s\<lparr>root := None\<rparr>)
            else do {
              s \<leftarrow> (if bb then fix_double_black n s
                   else do {
                     sib \<leftarrow> sibling (heap s) n;
                     if sib \<noteq> None then do {
                       sib \<leftarrow> sibling (heap s) n;
                       wr sib (\<lambda>x. x\<lparr>color := red\<rparr>) s
                     }
                     else Some s
                   });
              on_left \<leftarrow> is_on_left (heap s) n;
              if on_left then wr par (\<lambda>x. x\<lparr>left := None\<rparr>) s
              else wr par (\<lambda>x. x\<lparr>right := None\<rparr>) s
            });
       Some (free n s)
     }
     else do {
       nn \<leftarrow> rd s n;
       if left nn = None \<or> right nn = None then
         (if n = root s then do {
            mm \<leftarrow> rd s m;
            s \<leftarrow> wr n (\<lambda>x. x\<lparr>key := key mm\<rparr>) s;
            s \<leftarrow> wr n (\<lambda>x. x\<lparr>right := None\<rparr>) s;
            s \<leftarrow> wr n (\<lambda>x. x\<lparr>left := None\<rparr>) s;
            Some (free m s)
          }
          else do {
            on_left \<leftarrow> is_on_left (heap s) n;
            s \<leftarrow> (if on_left then wr par (\<lambda>x. x\<lparr>left := m\<rparr>) s
                 else wr par (\<lambda>x. x\<lparr>right := m\<rparr>) s);
            let s = free n s;
            s \<leftarrow> wr m (\<lambda>x. x\<lparr>parent := par\<rparr>) s;
            if bb then fix_double_black m s
            else wr m (\<lambda>x. x\<lparr>color := black\<rparr>) s
          })
       else do {
         h \<leftarrow> swap_keys m n (heap s);
         delete_helper m (s\<lparr>heap := h\<rparr>)
       }
     }
   }"

declare delete_helper.simps [code]

text \<open>
  \<^verbatim>\<open>delete_node\<close>. When the key is not found the method writes
  \<^verbatim>\<open>"Error: couldn't find " << key << "in the tree." << endl\<close> to \<^verbatim>\<open>cout\<close> and returns.
\<close>

definition delete_node :: "int \<Rightarrow> RBTree \<Rightarrow> RBTree option" where
  "delete_node k s =
     (if root s = None then Some s
      else do {
        n \<leftarrow> search_tree k s;
        if n = None
        then Some (s\<lparr>cout := cout s @ ''Error: couldn't find '' @ to_string k
                              @ ''in the tree.'' @ [CHR 0x0A]\<rparr>)
        else delete_helper n s
      })"

subsection \<open>Traversals\<close>

partial_function (option) in_order_helper :: "node_p \<Rightarrow> RBTree \<Rightarrow> RBTree option" where
  "in_order_helper rt s =
     (if rt = None then Some s
      else do {
        r \<leftarrow> rd s rt;
        s \<leftarrow> in_order_helper (left r) s;
        r \<leftarrow> rd s rt;
        let s = s\<lparr>cout := cout s @ to_string (key r) @ '' ''\<rparr>;
        r \<leftarrow> rd s rt;
        in_order_helper (right r) s
      })"

declare in_order_helper.simps [code]

definition in_order :: "RBTree \<Rightarrow> RBTree option" where
  "in_order s = in_order_helper (root s) s"

text \<open>
  \<^verbatim>\<open>prefix_order_helper\<close>. The test \<^verbatim>\<open>node->right == NULL && last->key != node->key\<close> reads
  \<^verbatim>\<open>last\<close> only when the right child is absent; reading a \<^verbatim>\<open>last\<close> that was never assigned
  has no defined behaviour.
\<close>

partial_function (option) prefix_order_helper :: "node_p \<Rightarrow> RBTree \<Rightarrow> RBTree option" where
  "prefix_order_helper nd s =
     (if nd = None then Some s
      else do {
        n \<leftarrow> rd s nd;
        let c = (if color n then CHR ''b'' else CHR ''r'');
        let s = s\<lparr>prefix_tree := prefix_tree s @ to_string (key n) @ [c] @ '',''\<rparr>;
        n \<leftarrow> rd s nd;
        let s = (if left n = None then s\<lparr>prefix_tree := prefix_tree s @ ''f,''\<rparr> else s);
        n \<leftarrow> rd s nd;
        marker \<leftarrow> (if right n = None
                   then (case last_tmp s of
                           None \<Rightarrow> None
                         | Some l \<Rightarrow> Some (t_key l \<noteq> key n))
                   else Some False);
        let s = (if marker then s\<lparr>prefix_tree := prefix_tree s @ ''f,''\<rparr> else s);
        n \<leftarrow> rd s nd;
        s \<leftarrow> prefix_order_helper (left n) s;
        n \<leftarrow> rd s nd;
        prefix_order_helper (right n) s
      })"

declare prefix_order_helper.simps [code]

definition prefix_order :: "RBTree \<Rightarrow> RBTree option" where
  "prefix_order s = prefix_order_helper (root s) (s\<lparr>prefix_tree := []\<rparr>)"

definition get_prefix_tree :: "RBTree \<Rightarrow> string" where
  "get_prefix_tree s = prefix_tree s"

subsection \<open>Bulk load\<close>

partial_function (option) build_tree_helper ::
    "node_p \<Rightarrow> tmp_node \<Rightarrow> RBTree \<Rightarrow> (node_p \<times> RBTree) option" where
  "build_tree_helper n cur s =
     (if n = None then do {
        let (n, s) = new_node (t_key cur) s;
        s \<leftarrow> wr n (\<lambda>x. x\<lparr>color := t_color cur\<rparr>) s;
        Some (n, s)
      }
      else do {
        nn \<leftarrow> rd s n;
        if t_key cur > key nn then do {
          (res, s) \<leftarrow> build_tree_helper (right nn) cur s;
          s \<leftarrow> wr n (\<lambda>x. x\<lparr>right := res\<rparr>) s;
          nn \<leftarrow> rd s n;
          s \<leftarrow> wr (right nn) (\<lambda>x. x\<lparr>parent := n\<rparr>) s;
          Some (n, s)
        }
        else do {
          (res, s) \<leftarrow> build_tree_helper (left nn) cur s;
          s \<leftarrow> wr n (\<lambda>x. x\<lparr>left := res\<rparr>) s;
          nn \<leftarrow> rd s n;
          s \<leftarrow> wr (left nn) (\<lambda>x. x\<lparr>parent := n\<rparr>) s;
          Some (n, s)
        }
      })"

declare build_tree_helper.simps [code]

text \<open>
  The \<^verbatim>\<open>while\<close> loop of \<^verbatim>\<open>build_tree\<close> over the entries after the first: an entry whose
  key is not \<open>-1\<close> is stored in \<^verbatim>\<open>last\<close> and placed in the tree.
\<close>

fun build_tree_loop :: "tmp_node list \<Rightarrow> RBTree \<Rightarrow> RBTree option" where
  "build_tree_loop [] s = Some s"
| "build_tree_loop (cur # rest) s =
     (if t_key cur \<noteq> - 1 then do {
        let s = s\<lparr>last_tmp := Some cur\<rparr>;
        (_, s) \<leftarrow> build_tree_helper (root s) cur s;
        build_tree_loop rest s
      }
      else build_tree_loop rest s)"

text \<open>
  \<^verbatim>\<open>build_tree\<close> reads the first entry without testing that there is one; on an empty
  input that read has no defined behaviour.
\<close>

definition build_tree :: "RBTree \<Rightarrow> RBTree option" where
  "build_tree s =
     (case tmp_tree s of
        [] \<Rightarrow> None
      | root_tmp # rest \<Rightarrow> do {
          (r, s) \<leftarrow> build_tree_helper (root s) root_tmp s;
          let s = s\<lparr>root := r\<rparr>;
          build_tree_loop rest s
        })"

section \<open>The tree a store represents\<close>

text \<open>
  The invariants of the specification are stated on the tree that the store holds: a
  node carries its address, key and colour, and absent children are \<open>Leaf\<close>.
\<close>

datatype tree = Leaf | Node tree nat int bool tree

fun ptr :: "tree \<Rightarrow> node_p" where
  "ptr Leaf = None"
| "ptr (Node l a k c r) = Some a"

fun addrs :: "tree \<Rightarrow> nat set" where
  "addrs Leaf = {}"
| "addrs (Node l a k c r) = insert a (addrs l \<union> addrs r)"

text \<open>No address occurs twice.\<close>

fun uniq :: "tree \<Rightarrow> bool" where
  "uniq Leaf = True"
| "uniq (Node l a k c r) =
     (a \<notin> addrs l \<and> a \<notin> addrs r \<and> addrs l \<inter> addrs r = {} \<and> uniq l \<and> uniq r)"

text \<open>
  \<open>heap_tree h par t\<close>: every node of \<open>t\<close> is stored in \<open>h\<close> at its address, with its key
  and colour, with links to the roots of its subtrees, and with a parent link to the node
  above it (\<open>par\<close> for the root of \<open>t\<close>).
\<close>

fun heap_tree :: "heap \<Rightarrow> node_p \<Rightarrow> tree \<Rightarrow> bool" where
  "heap_tree h par Leaf = True"
| "heap_tree h par (Node l a k c r) =
     (h a = Some \<lparr>key = k, parent = par, left = ptr l, right = ptr r, color = c\<rparr>
      \<and> heap_tree h (Some a) l \<and> heap_tree h (Some a) r)"

definition represents :: "RBTree \<Rightarrow> tree \<Rightarrow> bool" where
  "represents s t =
     (root s = ptr t \<and> heap_tree (heap s) None t \<and> uniq t \<and> addrs t \<subseteq> {..<fresh s})"

text \<open>The keys in in-order, which is the order \<^verbatim>\<open>in_order_helper\<close> visits them in.\<close>

fun keys :: "tree \<Rightarrow> int list" where
  "keys Leaf = []"
| "keys (Node l a k c r) = keys l @ k # keys r"

subsection \<open>The red-black invariants\<close>

text \<open>Invariant 1: a node is red or black, and an absent child counts as black.\<close>

fun color_of :: "tree \<Rightarrow> bool" where
  "color_of Leaf = black"
| "color_of (Node l a k c r) = c"

text \<open>Invariant 2: the root is black, or the tree is empty.\<close>

definition root_black :: "tree \<Rightarrow> bool" where
  "root_black t = (color_of t = black)"

text \<open>Invariant 3: a red node has no red child.\<close>

fun no_red_red :: "tree \<Rightarrow> bool" where
  "no_red_red Leaf = True"
| "no_red_red (Node l a k c r) =
     ((if c = red then color_of l = black \<and> color_of r = black else True)
      \<and> no_red_red l \<and> no_red_red r)"

text \<open>
  Invariant 4: \<open>black_counts t\<close> lists, for every path from the root of \<open>t\<close> down to an
  absent child, the number of black nodes on it; at every node all these numbers are the
  same.
\<close>

fun black_counts :: "tree \<Rightarrow> nat list" where
  "black_counts Leaf = [0]"
| "black_counts (Node l a k c r) =
     map (\<lambda>n. n + (if c = black then 1 else 0)) (black_counts l @ black_counts r)"

fun balanced :: "tree \<Rightarrow> bool" where
  "balanced Leaf = True"
| "balanced (Node l a k c r) =
     (list_all (\<lambda>n. n = hd (black_counts (Node l a k c r))) (black_counts (Node l a k c r))
      \<and> balanced l \<and> balanced r)"

text \<open>Invariant 5: keys in the left subtree are smaller, keys in the right one larger.\<close>

fun bst :: "tree \<Rightarrow> bool" where
  "bst Leaf = True"
| "bst (Node l a k c r) =
     (list_all (\<lambda>x. x < k) (keys l) \<and> list_all (\<lambda>x. k < x) (keys r) \<and> bst l \<and> bst r)"

definition rbt :: "tree \<Rightarrow> bool" where
  "rbt t = (root_black t \<and> no_red_red t \<and> balanced t \<and> bst t)"

section \<open>Search on a represented tree\<close>

text \<open>The descent of \<^verbatim>\<open>search_helper\<close>, on the tree.\<close>

fun find_node :: "tree \<Rightarrow> int \<Rightarrow> node_p" where
  "find_node Leaf x = None"
| "find_node (Node l a k c r) x =
     (if x = k then Some a else if x < k then find_node l x else find_node r x)"

lemma search_helper_find:
  "heap_tree h par t \<Longrightarrow> search_helper h (ptr t) x = Some (find_node t x)"
proof (induction t arbitrary: par)
  case Leaf
  show ?case by (subst search_helper.simps) simp
next
  case (Node l a k c r)
  then show ?case by (subst search_helper.simps) (auto simp: deref_def)
qed

lemma search_tree_find:
  "represents s t \<Longrightarrow> search_tree x s = Some (find_node t x)"
  unfolding represents_def search_tree_def
  using search_helper_find[of "heap s" None t x] by simp

lemma bst_sorted: "bst t = sorted_wrt (<) (keys t)"
  by (induction t) (fastforce simp: sorted_wrt_append list_all_iff)+

lemma find_None_iff: "bst t \<Longrightarrow> (find_node t x = None) = (x \<notin> set (keys t))"
  by (induction t) (auto simp: list_all_iff)

lemma find_Some_key:
  "heap_tree h par t \<Longrightarrow> find_node t x = Some a \<Longrightarrow> \<exists>n. h a = Some n \<and> key n = x"
  by (induction t arbitrary: par) (auto split: if_splits)

section \<open>Properties of the monitor\<close>

lemmas monitor_defs =
  rw_monitor_init_def system_init_def step_def deliver_def begin_read_entry_def
  begin_read_resume_def begin_write_entry_def begin_write_resume_def end_write_def

text \<open>
  C4. \<^verbatim>\<open>end_read\<close> is claimed to wake a waiting writer exactly when the active-reader
  count goes from 1 to 0, and never to make the count negative. The code tests the count
  before the decrement: with one active reader and one waiting writer the count reaches
  zero and no wake-up is issued; with no active reader the count becomes \<open>-1\<close> and the
  signal is issued.
\<close>

theorem C4_end_read_misses_last_reader:
  "end_read \<lparr>num_readers = 1, num_writers = 0, readers_wait = 0, writers_wait = 1\<rparr>
     = (\<lparr>num_readers = 0, num_writers = 0, readers_wait = 0, writers_wait = 1\<rparr>, [])
   \<and> end_read \<lparr>num_readers = 0, num_writers = 0, readers_wait = 0, writers_wait = 1\<rparr>
     = (\<lparr>num_readers = - 1, num_writers = 0, readers_wait = 0, writers_wait = 1\<rparr>,
        [Signal can_write])"
  by (simp add: end_read_def)

text \<open>
  C3. Mutual exclusion of a writer with readers and other writers is claimed for every
  interleaving. Thread 0 writes; thread 1 asks to read and blocks; thread 0 ends its
  write and signals thread 1; before thread 1 gets the mutex back, thread 2 asks to
  write and is admitted, since no writer and no reader is active; thread 1 then resumes
  after its wait without testing the condition again and is admitted as a reader while
  thread 2 is writing.
\<close>

theorem C3_reader_admitted_beside_writer:
  "run [BeginWrite 0, BeginRead 1, EndWrite 0 (Some 1), BeginWrite 2, Resume 1, Announce 1]
       (system_init 3)
     = Some \<lparr>mon = \<lparr>num_readers = 1, num_writers = 1, readers_wait = 0, writers_wait = 0\<rparr>,
             pcs = [Idle, Reading, Writing]\<rparr>
   \<and> \<not> exclusive
         \<lparr>mon = \<lparr>num_readers = 1, num_writers = 1, readers_wait = 0, writers_wait = 0\<rparr>,
          pcs = [Idle, Reading, Writing]\<rparr>"
  by (simp add: monitor_defs numeral_3_eq_3 exclusive_def)

section \<open>The pre-order string\<close>

text \<open>
  What \<^verbatim>\<open>prefix_order_helper\<close> appends for a tree, given the key \<open>lk\<close> of \<^verbatim>\<open>last\<close>: for
  each node its key, its colour letter and a comma, then at once \<^verbatim>\<open>f,\<close> when the left
  child is absent and \<^verbatim>\<open>f,\<close> when the right child is absent and the key differs from
  \<open>lk\<close>; after that the left subtree and then the right subtree.
\<close>

fun serialize :: "int \<Rightarrow> tree \<Rightarrow> string" where
  "serialize lk Leaf = []"
| "serialize lk (Node l a k c r) =
     to_string k @ [if c then CHR ''b'' else CHR ''r''] @ '',''
     @ (if l = Leaf then ''f,'' else [])
     @ (if r = Leaf \<and> lk \<noteq> k then ''f,'' else [])
     @ serialize lk l @ serialize lk r"

text \<open>
  The format as the specification words it: tokens separated by commas, the node's token
  first, then the whole left subtree, then the whole right subtree, an absent child being
  the token \<^verbatim>\<open>f\<close> at the place of that subtree, and no \<^verbatim>\<open>f\<close> for the absent right child of
  the node that holds the key of \<^verbatim>\<open>last\<close>.
\<close>

fun marked_preorder :: "int \<Rightarrow> tree \<Rightarrow> string list" where
  "marked_preorder lk Leaf = [''f'']"
| "marked_preorder lk (Node l a k c r) =
     (to_string k @ [if c then CHR ''b'' else CHR ''r''])
     # marked_preorder lk l
     @ (if r = Leaf \<and> lk = k then [] else marked_preorder lk r)"

fun comma_separated :: "string list \<Rightarrow> string" where
  "comma_separated [] = []"
| "comma_separated [x] = x"
| "comma_separated (x # y # ys) = x @ '','' @ comma_separated (y # ys)"

definition specified_prefix_tree :: "int \<Rightarrow> tree \<Rightarrow> string" where
  "specified_prefix_tree lk t = (if t = Leaf then [] else comma_separated (marked_preorder lk t))"

lemma ptr_None [simp]: "(ptr t = None) = (t = Leaf)"
  by (cases t) auto

lemma prefix_order_helper_None [simp]: "prefix_order_helper None s = Some s"
  by (subst prefix_order_helper.simps) simp

lemma prefix_order_helper_serialize:
  "heap_tree (heap s) par t \<Longrightarrow> last_tmp s = Some lt \<Longrightarrow>
   prefix_order_helper (ptr t) s
     = Some (s\<lparr>prefix_tree := prefix_tree s @ serialize (t_key lt) t\<rparr>)"
proof (induction t arbitrary: s par)
  case Leaf
  show ?case by simp
next
  case (Node l a k c r)
  note IHl = Node.IH(1)[where par = "Some a"]
  note IHr = Node.IH(2)[where par = "Some a"]
  from Node.prems show ?case
    by (subst prefix_order_helper.simps)
       (simp add: rd_def deref_def Let_def IHl IHr)
qed

lemma prefix_order_helper_unset:
  "heap_tree (heap s) par t \<Longrightarrow> last_tmp s = None \<Longrightarrow>
   prefix_order_helper (ptr t) s = (if t = Leaf then Some s else None)"
proof (induction t arbitrary: s par)
  case Leaf
  show ?case by simp
next
  case (Node l a k c r)
  note IHl = Node.IH(1)[where par = "Some a"]
  note IHr = Node.IH(2)[where par = "Some a"]
  from Node.prems show ?case
    by (subst prefix_order_helper.simps)
       (simp add: rd_def deref_def Let_def IHl IHr)
qed

text \<open>The entries of the input that carry a key, as the loop of \<^verbatim>\<open>build_tree\<close> tests them.\<close>

definition keyed :: "tmp_node list \<Rightarrow> tmp_node list" where
  "keyed es = filter (\<lambda>e. t_key e \<noteq> - 1) es"

text \<open>Evaluating the methods on a concrete store.\<close>

lemma bind_weak_cong: "m = m' \<Longrightarrow> Option.bind m f = Option.bind m' f"
  by simp

lemmas exec_simps =
  build_tree_def build_tree_helper.simps RBTree_new_def new_node_def wr_def upd_def rd_def
  deref_def prefix_order_def prefix_order_helper.simps get_prefix_tree_def to_string_def
  digits.simps delete_node_def search_tree_def search_helper.simps delete_helper.simps
  replace_def free_def min_node.simps

section \<open>Positions in a tree\<close>

text \<open>
  A node pointer that the code holds is a position in the represented tree: the subtree
  at the node together with the path from it up to the root. A frame of the path is the
  node above, with the subtree on its other side.
\<close>

datatype frame = LeftOf nat int bool tree | RightOf tree nat int bool

fun fill :: "frame \<Rightarrow> tree \<Rightarrow> tree" where
  "fill (LeftOf a k c r) t = Node t a k c r"
| "fill (RightOf l a k c) t = Node l a k c t"

fun plug :: "frame list \<Rightarrow> tree \<Rightarrow> tree" where
  "plug [] t = t"
| "plug (f # ctx) t = plug ctx (fill f t)"

fun frame_addr :: "frame \<Rightarrow> nat" where
  "frame_addr (LeftOf a k c r) = a"
| "frame_addr (RightOf l a k c) = a"

fun frame_color :: "frame \<Rightarrow> bool" where
  "frame_color (LeftOf a k c r) = c"
| "frame_color (RightOf l a k c) = c"

fun par_of :: "frame list \<Rightarrow> node_p" where
  "par_of [] = None"
| "par_of (f # ctx) = Some (frame_addr f)"

fun addrs_ctx :: "frame list \<Rightarrow> nat set" where
  "addrs_ctx [] = {}"
| "addrs_ctx (LeftOf a k c r # ctx) = insert a (addrs r \<union> addrs_ctx ctx)"
| "addrs_ctx (RightOf l a k c # ctx) = insert a (addrs l \<union> addrs_ctx ctx)"

fun uniq_ctx :: "frame list \<Rightarrow> bool" where
  "uniq_ctx [] = True"
| "uniq_ctx (LeftOf a k c r # ctx) =
     (a \<notin> addrs r \<and> a \<notin> addrs_ctx ctx \<and> addrs r \<inter> addrs_ctx ctx = {}
      \<and> uniq r \<and> uniq_ctx ctx)"
| "uniq_ctx (RightOf l a k c # ctx) =
     (a \<notin> addrs l \<and> a \<notin> addrs_ctx ctx \<and> addrs l \<inter> addrs_ctx ctx = {}
      \<and> uniq l \<and> uniq_ctx ctx)"

fun heap_ctx :: "heap \<Rightarrow> frame list \<Rightarrow> node_p \<Rightarrow> bool" where
  "heap_ctx h [] p = True"
| "heap_ctx h (LeftOf a k c r # ctx) p =
     (h a = Some \<lparr>key = k, parent = par_of ctx, left = p, right = ptr r, color = c\<rparr>
      \<and> heap_tree h (Some a) r \<and> heap_ctx h ctx (Some a))"
| "heap_ctx h (RightOf l a k c # ctx) p =
     (h a = Some \<lparr>key = k, parent = par_of ctx, left = ptr l, right = p, color = c\<rparr>
      \<and> heap_tree h (Some a) l \<and> heap_ctx h ctx (Some a))"

fun root_of :: "frame list \<Rightarrow> node_p \<Rightarrow> node_p" where
  "root_of [] p = p"
| "root_of (f # ctx) p = root_of ctx (Some (frame_addr f))"

lemma ptr_fill [simp]: "ptr (fill f t) = Some (frame_addr f)"
  by (cases f) auto

lemma ptr_plug: "ptr (plug ctx t) = root_of ctx (ptr t)"
  by (induction ctx arbitrary: t) auto

lemma addrs_plug: "addrs (plug ctx t) = addrs_ctx ctx \<union> addrs t"
proof (induction ctx arbitrary: t)
  case Nil
  then show ?case by simp
next
  case (Cons f ctx)
  then show ?case by (cases f) auto
qed

lemma uniq_plug:
  "uniq (plug ctx t) = (uniq_ctx ctx \<and> uniq t \<and> addrs_ctx ctx \<inter> addrs t = {})"
proof (induction ctx arbitrary: t)
  case Nil
  then show ?case by simp
next
  case (Cons f ctx)
  then show ?case by (cases f) (auto simp: addrs_plug)
qed

lemma heap_tree_plug:
  "heap_tree h None (plug ctx t) = (heap_ctx h ctx (ptr t) \<and> heap_tree h (par_of ctx) t)"
proof (induction ctx arbitrary: t)
  case Nil
  then show ?case by simp
next
  case (Cons f ctx)
  then show ?case by (cases f) auto
qed

lemma heap_tree_frame:
  "a \<notin> addrs t \<Longrightarrow> heap_tree (h(a := x)) par t = heap_tree h par t"
  by (induction t arbitrary: par) auto

lemma heap_ctx_frame:
  "a \<notin> addrs_ctx ctx \<Longrightarrow> heap_ctx (h(a := x)) ctx p = heap_ctx h ctx p"
proof (induction ctx arbitrary: p)
  case Nil
  then show ?case by simp
next
  case (Cons f ctx)
  show ?case
  proof (cases f)
    case (LeftOf a' k c r)
    with Cons.prems have *: "a' \<noteq> a" "a \<notin> addrs r" "a \<notin> addrs_ctx ctx" by auto
    show ?thesis
      by (simp add: LeftOf heap_tree_frame[OF *(2)] Cons.IH[OF *(3)] fun_upd_other[OF *(1)]
            del: fun_upd_apply)
  next
    case (RightOf l a' k c)
    with Cons.prems have *: "a' \<noteq> a" "a \<notin> addrs l" "a \<notin> addrs_ctx ctx" by auto
    show ?thesis
      by (simp add: RightOf heap_tree_frame[OF *(2)] Cons.IH[OF *(3)] fun_upd_other[OF *(1)]
            del: fun_upd_apply)
  qed
qed

lemma ptr_neq [simp]:
  "a \<notin> addrs t \<Longrightarrow> ptr t \<noteq> Some a"
  "a \<notin> addrs t \<Longrightarrow> Some a \<noteq> ptr t"
  by (cases t; auto)+

lemma root_of_in: "ctx \<noteq> [] \<Longrightarrow> \<exists>a \<in> addrs_ctx ctx. root_of ctx p = Some a"
proof (induction ctx arbitrary: p)
  case Nil
  then show ?case by simp
next
  case (Cons f ctx)
  show ?case
  proof (cases "ctx = []")
    case True
    then show ?thesis by (cases f) auto
  next
    case False
    from Cons.IH[OF False, of "Some (frame_addr f)"] show ?thesis by (cases f) auto
  qed
qed

text \<open>The addresses of a position are distinct and below the next fresh address.\<close>

definition wf_z :: "frame list \<Rightarrow> tree \<Rightarrow> nat \<Rightarrow> bool" where
  "wf_z ctx t n =
     (uniq_ctx ctx \<and> uniq t \<and> addrs_ctx ctx \<inter> addrs t = {}
      \<and> addrs_ctx ctx \<union> addrs t \<subseteq> {..<n})"

lemma represents_plug:
  "represents s (plug ctx t) =
     (root s = root_of ctx (ptr t) \<and> heap_ctx (heap s) ctx (ptr t)
      \<and> heap_tree (heap s) (par_of ctx) t \<and> wf_z ctx t (fresh s))"
  by (auto simp: represents_def wf_z_def ptr_plug heap_tree_plug uniq_plug addrs_plug)

lemma represents_nil:
  "represents s t = (root s = ptr t \<and> heap_tree (heap s) None t \<and> wf_z [] t (fresh s))"
  using represents_plug[of s "[]" t] by simp

lemma wf_z_D:
  "wf_z ctx t n \<Longrightarrow> uniq_ctx ctx \<and> uniq t \<and> addrs_ctx ctx \<inter> addrs t = {}"
  by (simp add: wf_z_def)

lemma rd_Some [simp]: "rd s (Some a) = heap s a"
  by (simp add: rd_def deref_def)

lemma rd_None [simp]: "rd s None = None"
  by (simp add: rd_def deref_def)

lemma wr_Some:
  "heap s a = Some n \<Longrightarrow> wr (Some a) f s = Some (s\<lparr>heap := (heap s)(a \<mapsto> f n)\<rparr>)"
  by (simp add: wr_def upd_def)

lemma wr_None [simp]: "wr None f s = None"
  by (simp add: wr_def upd_def)

lemma rep_cell:
  "represents s (plug ctx (Node l a k c r)) \<Longrightarrow>
   heap s a = Some \<lparr>key = k, parent = par_of ctx, left = ptr l, right = ptr r, color = c\<rparr>"
  by (simp add: represents_plug)

lemma rep_root:
  assumes "represents s (plug ctx (Node l a k c r))"
  shows "(root s = Some a) = (ctx = [])"
proof (cases "ctx = []")
  case True
  with assms show ?thesis by (simp add: represents_nil)
next
  case False
  from root_of_in[OF False, of "Some a"] obtain b where
    "b \<in> addrs_ctx ctx" "root_of ctx (Some a) = Some b" by blast
  moreover from assms have "a \<notin> addrs_ctx ctx" "root s = root_of ctx (Some a)"
    by (auto simp: represents_plug wf_z_def)
  ultimately show ?thesis using False by auto
qed

lemma rep_set_color:
  assumes "represents s (plug ctx (Node l a k c r))"
  shows "\<exists>s'. wr (Some a) (\<lambda>x. x\<lparr>color := c'\<rparr>) s = Some s'
           \<and> represents s' (plug ctx (Node l a k c' r))"
proof -
  from assms have wf: "wf_z ctx (Node l a k c r) (fresh s)" by (simp add: represents_plug)
  note u = wf_z_D[OF wf]
  have w: "wf_z ctx (Node l a k c' r) n = wf_z ctx (Node l a k c r) n" for n
    by (simp add: wf_z_def)
  from assms u show ?thesis
    by (simp add: represents_plug w wr_Some heap_tree_frame heap_ctx_frame)
qed

lemma rep_set_key:
  assumes "represents s (plug ctx (Node l a k c r))"
  shows "\<exists>s'. wr (Some a) (\<lambda>x. x\<lparr>key := k'\<rparr>) s = Some s'
           \<and> represents s' (plug ctx (Node l a k' c r))"
proof -
  from assms have wf: "wf_z ctx (Node l a k c r) (fresh s)" by (simp add: represents_plug)
  note u = wf_z_D[OF wf]
  have w: "wf_z ctx (Node l a k' c r) n = wf_z ctx (Node l a k c r) n" for n
    by (simp add: wf_z_def)
  from assms u show ?thesis
    by (simp add: represents_plug w wr_Some heap_tree_frame heap_ctx_frame)
qed

lemma wf_z_rotate:
  "wf_z ctx (Node (Node l a k c rl) b kb cb rr) n = wf_z ctx (Node l a k c (Node rl b kb cb rr)) n"
  by (auto simp: wf_z_def)

lemma rotate_left_rep:
  assumes "represents s (plug ctx (Node l a k c (Node rl b kb cb rr)))"
  shows "\<exists>s'. rotate_left (Some a) s = Some s'
           \<and> represents s' (plug ctx (Node (Node l a k c rl) b kb cb rr))"
proof -
  from assms have wf: "wf_z ctx (Node l a k c (Node rl b kb cb rr)) (fresh s)"
    and r: "root s = root_of ctx (Some a)"
    and hc: "heap_ctx (heap s) ctx (Some a)"
    and ht: "heap_tree (heap s) (par_of ctx) (Node l a k c (Node rl b kb cb rr))"
    by (simp_all add: represents_plug)
  note u = wf_z_D[OF wf]
  have "\<exists>s'. rotate_left (Some a) s = Some s' \<and> fresh s' = fresh s
          \<and> root s' = root_of ctx (Some b) \<and> heap_ctx (heap s') ctx (Some b)
          \<and> heap_tree (heap s') (par_of ctx) (Node (Node l a k c rl) b kb cb rr)"
  proof (cases ctx)
    case Nil
    with r hc ht u show ?thesis
      by (cases rl)
         (simp_all add: rotate_left_def wr_Some heap_tree_frame heap_ctx_frame Let_def)
  next
    case (Cons f ctx')
    with r hc ht u show ?thesis
      by (cases rl; cases f)
         (simp_all add: rotate_left_def wr_Some heap_tree_frame heap_ctx_frame Let_def)
  qed
  with wf show ?thesis
    by (auto simp: represents_plug wf_z_rotate)
qed

lemma rotate_right_rep:
  assumes "represents s (plug ctx (Node (Node ll b kb cb lr) a k c r))"
  shows "\<exists>s'. rotate_right (Some a) s = Some s'
           \<and> represents s' (plug ctx (Node ll b kb cb (Node lr a k c r)))"
proof -
  from assms have wf: "wf_z ctx (Node (Node ll b kb cb lr) a k c r) (fresh s)"
    and r: "root s = root_of ctx (Some a)"
    and hc: "heap_ctx (heap s) ctx (Some a)"
    and ht: "heap_tree (heap s) (par_of ctx) (Node (Node ll b kb cb lr) a k c r)"
    by (simp_all add: represents_plug)
  note u = wf_z_D[OF wf]
  have "\<exists>s'. rotate_right (Some a) s = Some s' \<and> fresh s' = fresh s
          \<and> root s' = root_of ctx (Some b) \<and> heap_ctx (heap s') ctx (Some b)
          \<and> heap_tree (heap s') (par_of ctx) (Node ll b kb cb (Node lr a k c r))"
  proof (cases ctx)
    case Nil
    with r hc ht u show ?thesis
      by (cases lr)
         (simp_all add: rotate_right_def wr_Some heap_tree_frame heap_ctx_frame Let_def)
  next
    case (Cons f ctx')
    with r hc ht u show ?thesis
      by (cases lr; cases f)
         (simp_all add: rotate_right_def wr_Some heap_tree_frame heap_ctx_frame Let_def)
  qed
  with wf show ?thesis
    by (auto simp: represents_plug wf_z_rotate)
qed

section \<open>Re-balancing after an insertion\<close>

text \<open>
  \<^verbatim>\<open>fix_insert\<close> on a position: the subtree at \<^verbatim>\<open>node\<close> and the path above it. \<open>None\<close> is a
  run that dereferences \<^verbatim>\<open>NULL\<close>: a red parent without a grandparent.
\<close>

fun blacken :: "tree \<Rightarrow> tree" where
  "blacken Leaf = Leaf"
| "blacken (Node l a k c r) = Node l a k black r"

fun set_frame_color :: "frame \<Rightarrow> bool \<Rightarrow> frame" where
  "set_frame_color (LeftOf a k c r) c' = LeftOf a k c' r"
| "set_frame_color (RightOf l a k c) c' = RightOf l a k c'"

fun a_fix_insert :: "frame list \<Rightarrow> tree \<Rightarrow> tree option" where
  "a_fix_insert ctx Leaf = None"
| "a_fix_insert [] (Node l n k c r) = Some (Node l n k black r)"
| "a_fix_insert [P] (Node l n k c r) =
     (if c \<noteq> black \<and> frame_color P = red then None
      else Some (blacken (fill P (Node l n k c r))))"
| "a_fix_insert (P # G # ctx) (Node l n k c r) =
     (if c \<noteq> black \<and> frame_color P = red then
        (case G of
           LeftOf g kg cg u \<Rightarrow>
             (if color_of u = red then
                a_fix_insert ctx
                  (Node (fill (set_frame_color P black) (Node l n k c r)) g kg red (blacken u))
              else
                (case P of
                   RightOf pl p kp cp \<Rightarrow>
                     a_fix_insert ctx (Node (Node pl p kp cp l) n k black (Node r g kg red u))
                 | LeftOf p kp cp pr \<Rightarrow>
                     a_fix_insert ctx (Node (Node l n k c r) p kp black (Node pr g kg red u))))
         | RightOf u g kg cg \<Rightarrow>
             (if color_of u = red then
                a_fix_insert ctx
                  (Node (blacken u) g kg red (fill (set_frame_color P black) (Node l n k c r)))
              else
                (case P of
                   LeftOf p kp cp pr \<Rightarrow>
                     a_fix_insert ctx (Node (Node u g kg red l) n k black (Node r p kp cp pr))
                 | RightOf pl p kp cp \<Rightarrow>
                     a_fix_insert ctx (Node (Node u g kg red pl) p kp black (Node l n k c r)))))
      else Some (blacken (plug (P # G # ctx) (Node l n k c r))))"

lemma rep_blacken_root:
  assumes "represents s t" and "t \<noteq> Leaf"
  shows "\<exists>s'. wr (root s) (\<lambda>x. x\<lparr>color := black\<rparr>) s = Some s' \<and> represents s' (blacken t)"
proof -
  from assms(2) obtain l a k c r where t: "t = Node l a k c r" by (cases t) auto
  with assms(1) have "represents s (plug [] (Node l a k c r))" by simp
  from rep_set_color[OF this, of black] assms(1) t show ?thesis
    by (simp add: represents_def)
qed

lemma plug_not_Leaf [simp]: "t \<noteq> Leaf \<Longrightarrow> plug ctx t \<noteq> Leaf"
proof (induction ctx arbitrary: t)
  case Nil
  then show ?case by simp
next
  case (Cons f ctx)
  then show ?case by (cases f) auto
qed

lemma rep_frame:
  "represents s (plug (F # ctx) t) \<Longrightarrow>
   \<exists>cell. heap s (frame_addr F) = Some cell \<and> color cell = frame_color F
      \<and> parent cell = par_of ctx"
  by (cases F) (simp_all add: represents_plug)

lemma fix_insert_cond_rep:
  assumes "represents s (plug ctx (Node l n k c r))"
  shows "fix_insert_cond (Some n) s
           = Some (ctx \<noteq> [] \<and> c \<noteq> black \<and> frame_color (hd ctx) = red)"
proof (cases ctx)
  case Nil
  with rep_root[OF assms] show ?thesis by (simp add: fix_insert_cond_def)
next
  case (Cons F ctx')
  with rep_root[OF assms] have "root s \<noteq> Some n" by simp
  moreover note rep_cell[OF assms]
  moreover from rep_frame[of s F ctx' "Node l n k c r"] assms Cons
  obtain cell where "heap s (frame_addr F) = Some cell" "color cell = frame_color F"
    by auto
  ultimately show ?thesis using Cons by (auto simp: fix_insert_cond_def)
qed

lemma fix_insert_stop:
  assumes "represents s (plug ctx (Node l n k c r))"
    and "\<not> (ctx \<noteq> [] \<and> c \<noteq> black \<and> frame_color (hd ctx) = red)"
  shows "\<exists>s'. fix_insert (Some n) s = Some s'
           \<and> represents s' (blacken (plug ctx (Node l n k c r)))"
proof -
  from rep_blacken_root[OF assms(1)] obtain s' where
    "wr (root s) (\<lambda>x. x\<lparr>color := black\<rparr>) s = Some s'"
    "represents s' (blacken (plug ctx (Node l n k c r)))" by auto
  moreover from fix_insert_cond_rep[OF assms(1)] assms(2)
  have "fix_insert_cond (Some n) s = Some False" by auto
  ultimately show ?thesis
    by (subst fix_insert.simps) simp
qed

lemma uncle_red:
  "heap_tree (heap s) par u \<Longrightarrow>
   (if ptr u \<noteq> None then rd s (ptr u) \<bind> (\<lambda>u. Some (color u = red)) else Some False)
     = Some (color_of u = red)"
  by (cases u) auto

lemma fix_insert_refines:
  "represents s (plug ctx t) \<Longrightarrow> a_fix_insert ctx t = Some t' \<Longrightarrow>
   \<exists>s'. fix_insert (ptr t) s = Some s' \<and> represents s' t'"
proof (induction "length ctx" arbitrary: ctx t s rule: less_induct)
  case less
  note rep = less.prems(1) and res = less.prems(2)
  from res obtain l n k c r where t: "t = Node l n k c r" by (cases t) auto
  show ?case
  proof (cases "ctx \<noteq> [] \<and> c \<noteq> black \<and> frame_color (hd ctx) = red")
    case False
    with res t have "t' = blacken (plug ctx (Node l n k c r))"
      by (cases "(ctx, t)" rule: a_fix_insert.cases) (auto split: if_splits)
    with fix_insert_stop[OF rep[unfolded t] False] t show ?thesis by simp
  next
    case loop: True
    then obtain P ctx1 where ctx1: "ctx = P # ctx1" by (cases ctx) auto
    with loop res t obtain G ctx2 where ctx2: "ctx1 = G # ctx2" by (cases ctx1) auto
    note cond = fix_insert_cond_rep[OF rep[unfolded t]]
    show ?thesis
    proof (cases G)
      case G: (LeftOf g kg cg u)
      show ?thesis
      proof (cases P)
        case P: (LeftOf p kp cp pr)
        from rep have R: "represents s (plug ctx2 (Node (Node (Node l n k c r) p kp cp pr) g kg cg u))"
          by (simp add: t ctx1 ctx2 G P)
        then have cells:
          "heap s n = Some \<lparr>key = k, parent = Some p, left = ptr l, right = ptr r, color = c\<rparr>"
          "heap s p = Some \<lparr>key = kp, parent = Some g, left = Some n, right = ptr pr, color = cp\<rparr>"
          "heap s g = Some \<lparr>key = kg, parent = par_of ctx2, left = Some p, right = ptr u, color = cg\<rparr>"
          "heap_tree (heap s) (Some g) u" "n \<notin> addrs pr" "p \<notin> addrs u"
          by (simp_all add: represents_plug wf_z_def)
        show ?thesis
        proof (cases "color_of u = red")
          case True
          then obtain ul ua ku ur where u: "u = Node ul ua ku red ur" by (cases u) auto
          from rep_set_color[OF R, of red] obtain s1 where
            w1: "wr (Some g) (\<lambda>x. x\<lparr>color := red\<rparr>) s = Some s1" and
            R1: "represents s1 (plug ctx2 (Node (Node (Node l n k c r) p kp cp pr) g kg red u))"
            by auto
          from rep_set_color[of s1 "LeftOf g kg red u # ctx2" "Node l n k c r" p kp cp pr black] R1
          obtain s2 where
            w2: "wr (Some p) (\<lambda>x. x\<lparr>color := black\<rparr>) s1 = Some s2" and
            R2: "represents s2 (plug ctx2 (Node (Node (Node l n k c r) p kp black pr) g kg red u))"
            by auto
          from rep_set_color[of s2 "RightOf (Node (Node l n k c r) p kp black pr) g kg red # ctx2"
                  ul ua ku red ur black] R2 u
          obtain s3 where
            w3: "wr (Some ua) (\<lambda>x. x\<lparr>color := black\<rparr>) s2 = Some s3" and
            R3: "represents s3 (plug ctx2 (Node (Node (Node l n k c r) p kp black pr) g kg red (Node ul ua ku black ur)))"
            by auto
          from res True loop have "a_fix_insert ctx2 (Node (Node (Node l n k c r) p kp black pr) g kg red (Node ul ua ku black ur)) = Some t'"
            by (simp add: t ctx1 ctx2 G P u)
          from less.hyps[OF _ R3 this] obtain s' where
            "fix_insert (Some g) s3 = Some s'" "represents s' t'"
            by (auto simp: ctx1 ctx2)
          with cond loop True w1 w2 w3 cells(4-6) show ?thesis
            by (subst fix_insert.simps) (simp add: t ctx1 ctx2 P G cells(1-3) u Let_def)
        next
          case False
          from rotate_right_rep[OF R] obtain s1 where
            w1: "rotate_right (Some g) s = Some s1" and
            R1: "represents s1 (plug ctx2 (Node (Node l n k c r) p kp cp (Node pr g kg cg u)))"
            by auto
          from rep_set_color[OF R1, of black] obtain s2 where
            w2: "wr (Some p) (\<lambda>x. x\<lparr>color := black\<rparr>) s1 = Some s2" and
            R2: "represents s2 (plug ctx2 (Node (Node l n k c r) p kp black (Node pr g kg cg u)))"
            by auto
          from rep_set_color[of s2 "RightOf (Node l n k c r) p kp black # ctx2" pr g kg cg u red] R2
          obtain s3 where
            w3: "wr (Some g) (\<lambda>x. x\<lparr>color := red\<rparr>) s2 = Some s3" and
            R3: "represents s3 (plug ctx2 (Node (Node l n k c r) p kp black (Node pr g kg red u)))"
            by auto
          from res False loop have "a_fix_insert ctx2 (Node (Node l n k c r) p kp black (Node pr g kg red u)) = Some t'"
            by (simp add: t ctx1 ctx2 G P)
          from less.hyps[OF _ R3 this] obtain s' where
            "fix_insert (Some p) s3 = Some s'" "represents s' t'"
            by (auto simp: ctx1 ctx2)
          with cond loop False w1 w2 w3 cells(4-6) show ?thesis
            by (subst fix_insert.simps, cases u)
               (simp_all add: t ctx1 ctx2 P G cells(1-3) Let_def)
        qed
      next
        case P: (RightOf pl p kp cp)
        from rep have R: "represents s (plug ctx2 (Node (Node pl p kp cp (Node l n k c r)) g kg cg u))"
          by (simp add: t ctx1 ctx2 G P)
        then have cells:
          "heap s n = Some \<lparr>key = k, parent = Some p, left = ptr l, right = ptr r, color = c\<rparr>"
          "heap s p = Some \<lparr>key = kp, parent = Some g, left = ptr pl, right = Some n, color = cp\<rparr>"
          "heap s g = Some \<lparr>key = kg, parent = par_of ctx2, left = Some p, right = ptr u, color = cg\<rparr>"
          "heap_tree (heap s) (Some g) u" "n \<notin> addrs pl" "p \<notin> addrs u"
          by (simp_all add: represents_plug wf_z_def)
        show ?thesis
        proof (cases "color_of u = red")
          case True
          then obtain ul ua ku ur where u: "u = Node ul ua ku red ur" by (cases u) auto
          from rep_set_color[OF R, of red] obtain s1 where
            w1: "wr (Some g) (\<lambda>x. x\<lparr>color := red\<rparr>) s = Some s1" and
            R1: "represents s1 (plug ctx2 (Node (Node pl p kp cp (Node l n k c r)) g kg red u))"
            by auto
          from rep_set_color[of s1 "LeftOf g kg red u # ctx2" pl p kp cp "Node l n k c r" black] R1
          obtain s2 where
            w2: "wr (Some p) (\<lambda>x. x\<lparr>color := black\<rparr>) s1 = Some s2" and
            R2: "represents s2 (plug ctx2 (Node (Node pl p kp black (Node l n k c r)) g kg red u))"
            by auto
          from rep_set_color[of s2 "RightOf (Node pl p kp black (Node l n k c r)) g kg red # ctx2"
                  ul ua ku red ur black] R2 u
          obtain s3 where
            w3: "wr (Some ua) (\<lambda>x. x\<lparr>color := black\<rparr>) s2 = Some s3" and
            R3: "represents s3 (plug ctx2 (Node (Node pl p kp black (Node l n k c r)) g kg red (Node ul ua ku black ur)))"
            by auto
          from res True loop have "a_fix_insert ctx2 (Node (Node pl p kp black (Node l n k c r)) g kg red (Node ul ua ku black ur)) = Some t'"
            by (simp add: t ctx1 ctx2 G P u)
          from less.hyps[OF _ R3 this] obtain s' where
            "fix_insert (Some g) s3 = Some s'" "represents s' t'"
            by (auto simp: ctx1 ctx2)
          with cond loop True w1 w2 w3 cells(4-6) show ?thesis
            by (subst fix_insert.simps) (simp add: t ctx1 ctx2 P G cells(1-3) u Let_def)
        next
          case False
          from rotate_left_rep[of s "LeftOf g kg cg u # ctx2" pl p kp cp l n k c r] R obtain s1 where
            w1: "rotate_left (Some p) s = Some s1" and
            R1: "represents s1 (plug ctx2 (Node (Node (Node pl p kp cp l) n k c r) g kg cg u))"
            by auto
          from R1 have c1: "heap s1 p = Some \<lparr>key = kp, parent = Some n, left = ptr pl, right = ptr l, color = cp\<rparr>"
            by (simp add: represents_plug)
          from rotate_right_rep[OF R1] obtain s2 where
            w2: "rotate_right (Some g) s1 = Some s2" and
            R2: "represents s2 (plug ctx2 (Node (Node pl p kp cp l) n k c (Node r g kg cg u)))"
            by auto
          from rep_set_color[OF R2, of black] obtain s3 where
            w3: "wr (Some n) (\<lambda>x. x\<lparr>color := black\<rparr>) s2 = Some s3" and
            R3: "represents s3 (plug ctx2 (Node (Node pl p kp cp l) n k black (Node r g kg cg u)))"
            by auto
          from rep_set_color[of s3 "RightOf (Node pl p kp cp l) n k black # ctx2" r g kg cg u red] R3
          obtain s4 where
            w4: "wr (Some g) (\<lambda>x. x\<lparr>color := red\<rparr>) s3 = Some s4" and
            R4: "represents s4 (plug ctx2 (Node (Node pl p kp cp l) n k black (Node r g kg red u)))"
            by auto
          from res False loop have "a_fix_insert ctx2 (Node (Node pl p kp cp l) n k black (Node r g kg red u)) = Some t'"
            by (simp add: t ctx1 ctx2 G P)
          from less.hyps[OF _ R4 this] obtain s' where
            "fix_insert (Some n) s4 = Some s'" "represents s' t'"
            by (auto simp: ctx1 ctx2)
          with cond loop False w1 c1 w2 w3 w4 cells(4-6) show ?thesis
            by (subst fix_insert.simps, cases u)
               (simp_all add: t ctx1 ctx2 P G cells(1-3) Let_def)
        qed
      qed
    next
      case G: (RightOf u g kg cg)
      show ?thesis
      proof (cases P)
        case P: (LeftOf p kp cp pr)
        from rep have R: "represents s (plug ctx2 (Node u g kg cg (Node (Node l n k c r) p kp cp pr)))"
          by (simp add: t ctx1 ctx2 G P)
        then have cells:
          "heap s n = Some \<lparr>key = k, parent = Some p, left = ptr l, right = ptr r, color = c\<rparr>"
          "heap s p = Some \<lparr>key = kp, parent = Some g, left = Some n, right = ptr pr, color = cp\<rparr>"
          "heap s g = Some \<lparr>key = kg, parent = par_of ctx2, left = ptr u, right = Some p, color = cg\<rparr>"
          "heap_tree (heap s) (Some g) u" "n \<notin> addrs pr" "p \<notin> addrs u"
          by (simp_all add: represents_plug wf_z_def)
        show ?thesis
        proof (cases "color_of u = red")
          case True
          then obtain ul ua ku ur where u: "u = Node ul ua ku red ur" by (cases u) auto
          from rep_set_color[OF R, of red] obtain s1 where
            w1: "wr (Some g) (\<lambda>x. x\<lparr>color := red\<rparr>) s = Some s1" and
            R1: "represents s1 (plug ctx2 (Node u g kg red (Node (Node l n k c r) p kp cp pr)))"
            by auto
          from rep_set_color[of s1 "RightOf u g kg red # ctx2" "Node l n k c r" p kp cp pr black] R1
          obtain s2 where
            w2: "wr (Some p) (\<lambda>x. x\<lparr>color := black\<rparr>) s1 = Some s2" and
            R2: "represents s2 (plug ctx2 (Node u g kg red (Node (Node l n k c r) p kp black pr)))"
            by auto
          from rep_set_color[of s2 "LeftOf g kg red (Node (Node l n k c r) p kp black pr) # ctx2"
                  ul ua ku red ur black] R2 u
          obtain s3 where
            w3: "wr (Some ua) (\<lambda>x. x\<lparr>color := black\<rparr>) s2 = Some s3" and
            R3: "represents s3 (plug ctx2 (Node (Node ul ua ku black ur) g kg red (Node (Node l n k c r) p kp black pr)))"
            by auto
          from res True loop have "a_fix_insert ctx2 (Node (Node ul ua ku black ur) g kg red (Node (Node l n k c r) p kp black pr)) = Some t'"
            by (simp add: t ctx1 ctx2 G P u)
          from less.hyps[OF _ R3 this] obtain s' where
            "fix_insert (Some g) s3 = Some s'" "represents s' t'"
            by (auto simp: ctx1 ctx2)
          with cond loop True w1 w2 w3 cells(4-6) show ?thesis
            by (subst fix_insert.simps) (simp add: t ctx1 ctx2 P G cells(1-3) u Let_def)
        next
          case False
          from rotate_right_rep[of s "RightOf u g kg cg # ctx2" l n k c r p kp cp pr] R obtain s1 where
            w1: "rotate_right (Some p) s = Some s1" and
            R1: "represents s1 (plug ctx2 (Node u g kg cg (Node l n k c (Node r p kp cp pr))))"
            by auto
          from R1 have c1: "heap s1 p = Some \<lparr>key = kp, parent = Some n, left = ptr r, right = ptr pr, color = cp\<rparr>"
            by (simp add: represents_plug)
          from rotate_left_rep[OF R1] obtain s2 where
            w2: "rotate_left (Some g) s1 = Some s2" and
            R2: "represents s2 (plug ctx2 (Node (Node u g kg cg l) n k c (Node r p kp cp pr)))"
            by auto
          from rep_set_color[OF R2, of black] obtain s3 where
            w3: "wr (Some n) (\<lambda>x. x\<lparr>color := black\<rparr>) s2 = Some s3" and
            R3: "represents s3 (plug ctx2 (Node (Node u g kg cg l) n k black (Node r p kp cp pr)))"
            by auto
          from rep_set_color[of s3 "LeftOf n k black (Node r p kp cp pr) # ctx2" u g kg cg l red] R3
          obtain s4 where
            w4: "wr (Some g) (\<lambda>x. x\<lparr>color := red\<rparr>) s3 = Some s4" and
            R4: "represents s4 (plug ctx2 (Node (Node u g kg red l) n k black (Node r p kp cp pr)))"
            by auto
          from res False loop have "a_fix_insert ctx2 (Node (Node u g kg red l) n k black (Node r p kp cp pr)) = Some t'"
            by (simp add: t ctx1 ctx2 G P)
          from less.hyps[OF _ R4 this] obtain s' where
            "fix_insert (Some n) s4 = Some s'" "represents s' t'"
            by (auto simp: ctx1 ctx2)
          with cond loop False w1 c1 w2 w3 w4 cells(4-6) show ?thesis
            by (subst fix_insert.simps, cases u)
               (simp_all add: t ctx1 ctx2 P G cells(1-3) Let_def)
        qed
      next
        case P: (RightOf pl p kp cp)
        from rep have R: "represents s (plug ctx2 (Node u g kg cg (Node pl p kp cp (Node l n k c r))))"
          by (simp add: t ctx1 ctx2 G P)
        then have cells:
          "heap s n = Some \<lparr>key = k, parent = Some p, left = ptr l, right = ptr r, color = c\<rparr>"
          "heap s p = Some \<lparr>key = kp, parent = Some g, left = ptr pl, right = Some n, color = cp\<rparr>"
          "heap s g = Some \<lparr>key = kg, parent = par_of ctx2, left = ptr u, right = Some p, color = cg\<rparr>"
          "heap_tree (heap s) (Some g) u" "n \<notin> addrs pl" "p \<notin> addrs u"
          by (simp_all add: represents_plug wf_z_def)
        show ?thesis
        proof (cases "color_of u = red")
          case True
          then obtain ul ua ku ur where u: "u = Node ul ua ku red ur" by (cases u) auto
          from rep_set_color[OF R, of red] obtain s1 where
            w1: "wr (Some g) (\<lambda>x. x\<lparr>color := red\<rparr>) s = Some s1" and
            R1: "represents s1 (plug ctx2 (Node u g kg red (Node pl p kp cp (Node l n k c r))))"
            by auto
          from rep_set_color[of s1 "RightOf u g kg red # ctx2" pl p kp cp "Node l n k c r" black] R1
          obtain s2 where
            w2: "wr (Some p) (\<lambda>x. x\<lparr>color := black\<rparr>) s1 = Some s2" and
            R2: "represents s2 (plug ctx2 (Node u g kg red (Node pl p kp black (Node l n k c r))))"
            by auto
          from rep_set_color[of s2 "LeftOf g kg red (Node pl p kp black (Node l n k c r)) # ctx2"
                  ul ua ku red ur black] R2 u
          obtain s3 where
            w3: "wr (Some ua) (\<lambda>x. x\<lparr>color := black\<rparr>) s2 = Some s3" and
            R3: "represents s3 (plug ctx2 (Node (Node ul ua ku black ur) g kg red (Node pl p kp black (Node l n k c r))))"
            by auto
          from res True loop have "a_fix_insert ctx2 (Node (Node ul ua ku black ur) g kg red (Node pl p kp black (Node l n k c r))) = Some t'"
            by (simp add: t ctx1 ctx2 G P u)
          from less.hyps[OF _ R3 this] obtain s' where
            "fix_insert (Some g) s3 = Some s'" "represents s' t'"
            by (auto simp: ctx1 ctx2)
          with cond loop True w1 w2 w3 cells(4-6) show ?thesis
            by (subst fix_insert.simps) (simp add: t ctx1 ctx2 P G cells(1-3) u Let_def)
        next
          case False
          from rotate_left_rep[OF R] obtain s1 where
            w1: "rotate_left (Some g) s = Some s1" and
            R1: "represents s1 (plug ctx2 (Node (Node u g kg cg pl) p kp cp (Node l n k c r)))"
            by auto
          from rep_set_color[OF R1, of black] obtain s2 where
            w2: "wr (Some p) (\<lambda>x. x\<lparr>color := black\<rparr>) s1 = Some s2" and
            R2: "represents s2 (plug ctx2 (Node (Node u g kg cg pl) p kp black (Node l n k c r)))"
            by auto
          from rep_set_color[of s2 "LeftOf p kp black (Node l n k c r) # ctx2" u g kg cg pl red] R2
          obtain s3 where
            w3: "wr (Some g) (\<lambda>x. x\<lparr>color := red\<rparr>) s2 = Some s3" and
            R3: "represents s3 (plug ctx2 (Node (Node u g kg red pl) p kp black (Node l n k c r)))"
            by auto
          from res False loop have "a_fix_insert ctx2 (Node (Node u g kg red pl) p kp black (Node l n k c r)) = Some t'"
            by (simp add: t ctx1 ctx2 G P)
          from less.hyps[OF _ R3 this] obtain s' where
            "fix_insert (Some p) s3 = Some s'" "represents s' t'"
            by (auto simp: ctx1 ctx2)
          with cond loop False w1 w2 w3 cells(4-6) show ?thesis
            by (subst fix_insert.simps, cases u)
               (simp_all add: t ctx1 ctx2 P G cells(1-3) Let_def)
        qed
      qed
    qed
  qed
qed

section \<open>Linking a new node\<close>

text \<open>The tree after \<^verbatim>\<open>insert_helper\<close> has linked the new node \<open>n\<close> with key \<open>x\<close>.\<close>

fun ins :: "nat \<Rightarrow> int \<Rightarrow> tree \<Rightarrow> tree" where
  "ins n x Leaf = Node Leaf n x red Leaf"
| "ins n x (Node l a k c r) =
     (if x < k then Node (ins n x l) a k c r
      else if k < x then Node l a k c (ins n x r)
      else Node l a k c r)"

text \<open>The path from the place of the new node up to the root.\<close>

fun ins_path :: "tree \<Rightarrow> int \<Rightarrow> frame list \<Rightarrow> frame list" where
  "ins_path Leaf x ctx = ctx"
| "ins_path (Node l a k c r) x ctx =
     (if x < k then ins_path l x (LeftOf a k c r # ctx)
      else if k < x then ins_path r x (RightOf l a k c # ctx)
      else ctx)"

lemma plug_ins_path:
  "find_node t x = None \<Longrightarrow>
   plug (ins_path t x ctx) (Node Leaf n x red Leaf) = plug ctx (ins n x t)"
  by (induction t arbitrary: ctx) (auto split: if_splits)

lemma ins_not_Leaf [simp]: "ins n x t \<noteq> Leaf"
  by (cases t) auto

lemma addrs_ins: "find_node t x = None \<Longrightarrow> addrs (ins n x t) = insert n (addrs t)"
  by (induction t) (auto split: if_splits)

lemma uniq_ins: "find_node t x = None \<Longrightarrow> n \<notin> addrs t \<Longrightarrow> uniq t \<Longrightarrow> uniq (ins n x t)"
  by (induction t) (auto simp: addrs_ins split: if_splits)

lemma heap_tree_cong:
  "(\<And>b. b \<in> addrs t \<Longrightarrow> h' b = h b) \<Longrightarrow> heap_tree h' par t = heap_tree h par t"
  by (induction t arbitrary: par) auto

lemma heap_tree_reparent:
  assumes "heap_tree h p (Node l b k c r)" and "b \<notin> addrs l" and "b \<notin> addrs r"
  shows "heap_tree (h(b \<mapsto> \<lparr>key = k, parent = p', left = ptr l, right = ptr r, color = c\<rparr>))
           p' (Node l b k c r)"
  using assms by (simp add: heap_tree_frame)

lemma insert_helper_None [simp]: "insert_helper None nd h = Some (nd, h)"
  by (subst insert_helper.simps) simp

lemma insert_helper_ins:
  assumes "heap_tree h par t"
    and "h n = Some \<lparr>key = x, parent = q, left = None, right = None, color = red\<rparr>"
    and "n \<notin> addrs t" and "uniq t" and "find_node t x = None"
  shows "\<exists>h'. insert_helper (ptr t) (Some n) h = Some (ptr (ins n x t), h')
           \<and> heap_tree h' (if t = Leaf then q else par) (ins n x t)
           \<and> (\<forall>b. b \<notin> addrs t \<longrightarrow> b \<noteq> n \<longrightarrow> h' b = h b)"
  using assms
proof (induction t arbitrary: par h)
  case Leaf
  then show ?case by simp
next
  case (Node l a k c r)
  from Node.prems have
    ha: "h a = Some \<lparr>key = k, parent = par, left = ptr l, right = ptr r, color = c\<rparr>" and
    hl: "heap_tree h (Some a) l" and hr: "heap_tree h (Some a) r" and
    hn: "h n = Some \<lparr>key = x, parent = q, left = None, right = None, color = red\<rparr>" and
    d: "a \<notin> addrs l" "a \<notin> addrs r" "addrs l \<inter> addrs r = {}" "n \<noteq> a" "n \<notin> addrs l"
       "n \<notin> addrs r" "uniq l" "uniq r" and
    xk: "x \<noteq> k"
    by (auto split: if_splits)
  show ?case
  proof (cases "x < k")
    case True
    with Node.prems have f: "find_node l x = None" by simp
    from Node.IH(1)[OF hl hn d(5) d(7) f] obtain h1 where
      1: "insert_helper (ptr l) (Some n) h = Some (ptr (ins n x l), h1)" and
      2: "heap_tree h1 (if l = Leaf then q else Some a) (ins n x l)" and
      3: "\<And>b. b \<notin> addrs l \<Longrightarrow> b \<noteq> n \<Longrightarrow> h1 b = h b"
      by blast
    obtain tl b tk tc tr where T: "ins n x l = Node tl b tk tc tr"
      by (cases "ins n x l") auto
    from uniq_ins[OF f d(5) d(7)] T have ub: "b \<notin> addrs tl" "b \<notin> addrs tr" by auto
    from addrs_ins[OF f, of n] T have bin: "b \<in> insert n (addrs l)"
        "addrs (Node tl b tk tc tr) = insert n (addrs l)" by auto
    with d have ba: "b \<noteq> a" by auto
    from 3[of a] d have h1a: "h1 a = h a" by simp
    from 2 T have cb:
      "h1 b = Some \<lparr>key = tk, parent = (if l = Leaf then q else Some a), left = ptr tl,
                    right = ptr tr, color = tc\<rparr>" by simp
    let ?h2 = "h1(a \<mapsto> \<lparr>key = k, parent = par, left = Some b, right = ptr r, color = c\<rparr>)"
    let ?h3 = "?h2(b \<mapsto> \<lparr>key = tk, parent = Some a, left = ptr tl, right = ptr tr, color = tc\<rparr>)"
    have exec: "insert_helper (Some a) (Some n) h = Some (Some a, ?h3)"
      using True 1 T h1a ha hn cb ba
      by (subst insert_helper.simps) (simp add: deref_def upd_def)
    have "a \<notin> addrs (Node tl b tk tc tr)" using bin d by auto
    with 2 T have "heap_tree ?h2 (if l = Leaf then q else Some a) (Node tl b tk tc tr)"
      by (simp add: heap_tree_frame)
    from heap_tree_reparent[OF this ub, of "Some a"]
    have t3: "heap_tree ?h3 (Some a) (Node tl b tk tc tr)" by simp
    have r3: "heap_tree ?h3 (Some a) r"
    proof -
      have "\<And>b'. b' \<in> addrs r \<Longrightarrow> ?h3 b' = h b'"
        using 3 bin d by auto
      from heap_tree_cong[of r ?h3 h, OF this] hr show ?thesis by simp
    qed
    have a3: "?h3 a = Some \<lparr>key = k, parent = par, left = Some b, right = ptr r, color = c\<rparr>"
      using ba by simp
    have fr: "\<forall>b'. b' \<notin> addrs (Node l a k c r) \<longrightarrow> b' \<noteq> n \<longrightarrow> ?h3 b' = h b'"
      using 3 bin by auto
    from exec t3 r3 a3 fr True T show ?thesis by simp
  next
    case False
    with xk have gt: "k < x" by simp
    with Node.prems False have f: "find_node r x = None" by simp
    from Node.IH(2)[OF hr hn d(6) d(8) f] obtain h1 where
      1: "insert_helper (ptr r) (Some n) h = Some (ptr (ins n x r), h1)" and
      2: "heap_tree h1 (if r = Leaf then q else Some a) (ins n x r)" and
      3: "\<And>b. b \<notin> addrs r \<Longrightarrow> b \<noteq> n \<Longrightarrow> h1 b = h b"
      by blast
    obtain tl b tk tc tr where T: "ins n x r = Node tl b tk tc tr"
      by (cases "ins n x r") auto
    from uniq_ins[OF f d(6) d(8)] T have ub: "b \<notin> addrs tl" "b \<notin> addrs tr" by auto
    from addrs_ins[OF f, of n] T have bin: "b \<in> insert n (addrs r)"
        "addrs (Node tl b tk tc tr) = insert n (addrs r)" by auto
    with d have ba: "b \<noteq> a" by auto
    from 3[of a] d have h1a: "h1 a = h a" by simp
    from 2 T have cb:
      "h1 b = Some \<lparr>key = tk, parent = (if r = Leaf then q else Some a), left = ptr tl,
                    right = ptr tr, color = tc\<rparr>" by simp
    let ?h2 = "h1(a \<mapsto> \<lparr>key = k, parent = par, left = ptr l, right = Some b, color = c\<rparr>)"
    let ?h3 = "?h2(b \<mapsto> \<lparr>key = tk, parent = Some a, left = ptr tl, right = ptr tr, color = tc\<rparr>)"
    have exec: "insert_helper (Some a) (Some n) h = Some (Some a, ?h3)"
      using False gt 1 T h1a ha hn cb ba
      by (subst insert_helper.simps) (simp add: deref_def upd_def)
    have "a \<notin> addrs (Node tl b tk tc tr)" using bin d by auto
    with 2 T have "heap_tree ?h2 (if r = Leaf then q else Some a) (Node tl b tk tc tr)"
      by (simp add: heap_tree_frame)
    from heap_tree_reparent[OF this ub, of "Some a"]
    have t3: "heap_tree ?h3 (Some a) (Node tl b tk tc tr)" by simp
    have l3: "heap_tree ?h3 (Some a) l"
    proof -
      have "\<And>b'. b' \<in> addrs l \<Longrightarrow> ?h3 b' = h b'"
        using 3 bin d by auto
      from heap_tree_cong[of l ?h3 h, OF this] hl show ?thesis by simp
    qed
    have a3: "?h3 a = Some \<lparr>key = k, parent = par, left = ptr l, right = Some b, color = c\<rparr>"
      using ba by simp
    have fr: "\<forall>b'. b' \<notin> addrs (Node l a k c r) \<longrightarrow> b' \<noteq> n \<longrightarrow> ?h3 b' = h b'"
      using 3 bin by auto
    from exec t3 l3 a3 fr False gt T show ?thesis by simp
  qed
qed

lemma insert_node_refines:
  assumes "represents s t" and "find_node t x = None"
    and "a_fix_insert (ins_path t x []) (Node Leaf (fresh s) x red Leaf) = Some t'"
  shows "\<exists>s'. insert_node x s = Some s' \<and> represents s' t'"
proof -
  let ?n = "fresh s"
  let ?h0 = "(heap s)(?n \<mapsto> \<lparr>key = x, parent = None, left = None, right = None, color = red\<rparr>)"
  from assms(1) have rt: "root s = ptr t" and ht: "heap_tree (heap s) None t"
    and u: "uniq t" and b: "addrs t \<subseteq> {..<fresh s}"
    by (simp_all add: represents_def)
  from b have nf: "?n \<notin> addrs t" by auto
  from ht nf have ht0: "heap_tree ?h0 None t" by (simp add: heap_tree_frame)
  have hn: "?h0 ?n = Some \<lparr>key = x, parent = None, left = None, right = None, color = red\<rparr>"
    by simp
  from insert_helper_ins[OF ht0 hn nf u assms(2)] obtain h1 where
    1: "insert_helper (ptr t) (Some ?n) ?h0 = Some (ptr (ins ?n x t), h1)" and
    pre: "heap_tree h1 (if t = Leaf then None else None) (ins ?n x t)"
    by blast
  from pre have 2: "heap_tree h1 None (ins ?n x t)" by simp
  let ?s1 = "s\<lparr>fresh := Suc (fresh s), root := ptr (ins ?n x t), heap := h1\<rparr>"
  have "represents ?s1 (ins ?n x t)"
    using 2 uniq_ins[OF assms(2) nf u] addrs_ins[OF assms(2), of ?n] b
    by (auto simp: represents_def)
  then have "represents ?s1 (plug (ins_path t x []) (Node Leaf ?n x red Leaf))"
    by (simp add: plug_ins_path[OF assms(2)])
  from fix_insert_refines[OF this assms(3)] obtain s' where
    "fix_insert (Some ?n) ?s1 = Some s'" "represents s' t'" by auto
  with 1 rt show ?thesis
    by (simp add: insert_node_def search_tree_find[OF assms(1)] assms(2) new_node_def)
qed

section \<open>The invariants along a path\<close>

fun bh :: "tree \<Rightarrow> nat" where
  "bh Leaf = 0"
| "bh (Node l a k c r) = bh l + (if c = black then 1 else 0)"

fun bal :: "tree \<Rightarrow> bool" where
  "bal Leaf = True"
| "bal (Node l a k c r) = (bh l = bh r \<and> bal l \<and> bal r)"

lemma black_counts_not_Nil [simp]: "black_counts t \<noteq> []"
  by (induction t) auto

lemma bal_black_counts: "bal t \<Longrightarrow> set (black_counts t) = {bh t}"
proof (induction t)
  case Leaf
  then show ?case by simp
next
  case (Node l a k c r)
  then have "set (black_counts l) = {bh l}" "set (black_counts r) = {bh l}" by auto
  then show ?case by (auto simp: image_Un)
qed

lemma balanced_bal: "balanced t = bal t"
proof (induction t)
  case Leaf
  then show ?case by simp
next
  case (Node l a k c r)
  show ?case
  proof (cases "bal l \<and> bal r")
    case False
    with Node show ?thesis by auto
  next
    case True
    with bal_black_counts[of l] bal_black_counts[of r]
    have sl: "set (black_counts l) = {bh l}" and sr: "set (black_counts r) = {bh r}" by auto
    then have hdl: "hd (black_counts l) = bh l"
      by (metis black_counts_not_Nil hd_in_set singletonD)
    have "hd (black_counts (Node l a k c r)) = bh l + (if c then 1 else 0)"
      using hdl by (simp add: hd_map hd_append)
    moreover have "set (black_counts (Node l a k c r))
        = {bh l + (if c then 1 else 0), bh r + (if c then 1 else 0)}"
      using sl sr by (auto simp: image_Un)
    ultimately have "list_all (\<lambda>n. n = hd (black_counts (Node l a k c r)))
        (black_counts (Node l a k c r)) = (bh l = bh r)"
      unfolding list_all_iff by auto
    with True Node show ?thesis by simp
  qed
qed

fun sib :: "frame \<Rightarrow> tree" where
  "sib (LeftOf a k c r) = r"
| "sib (RightOf l a k c) = l"

text \<open>
  \<open>nrr_ctx\<close>: along the path no red node has a red child, the node at the start of the
  path left aside.
\<close>

fun nrr_ctx :: "frame list \<Rightarrow> bool" where
  "nrr_ctx [] = True"
| "nrr_ctx (f # ctx) =
     (no_red_red (sib f)
      \<and> (if frame_color f = red
          then color_of (sib f) = black
               \<and> (case ctx of [] \<Rightarrow> True | g # _ \<Rightarrow> frame_color g = black)
          else True)
      \<and> nrr_ctx ctx)"

lemma no_red_red_plug:
  "no_red_red (plug ctx t) =
     (no_red_red t \<and> nrr_ctx ctx
      \<and> (case ctx of [] \<Rightarrow> True | f # _ \<Rightarrow> (if frame_color f = red then color_of t = black else True)))"
proof (induction ctx arbitrary: t)
  case Nil
  then show ?case by simp
next
  case (Cons f ctx)
  show ?case
    unfolding plug.simps Cons.IH by (cases f; cases ctx) auto
qed

text \<open>\<open>bal_ctx ctx h\<close>: the path is balanced around a subtree of black height \<open>h\<close>.\<close>

fun bal_ctx :: "frame list \<Rightarrow> nat \<Rightarrow> bool" where
  "bal_ctx [] h = True"
| "bal_ctx (f # ctx) h =
     (bh (sib f) = h \<and> bal (sib f)
      \<and> bal_ctx ctx (h + (if frame_color f = black then 1 else 0)))"

lemma bal_plug: "bal (plug ctx t) = (bal t \<and> bal_ctx ctx (bh t))"
proof (induction ctx arbitrary: t)
  case Nil
  then show ?case by simp
next
  case (Cons f ctx)
  show ?case
    by (cases f) (auto simp: Cons.IH)
qed

fun keys_before :: "frame list \<Rightarrow> int list" where
  "keys_before [] = []"
| "keys_before (LeftOf a k c r # ctx) = keys_before ctx"
| "keys_before (RightOf l a k c # ctx) = keys_before ctx @ keys l @ [k]"

fun keys_after :: "frame list \<Rightarrow> int list" where
  "keys_after [] = []"
| "keys_after (LeftOf a k c r # ctx) = k # keys r @ keys_after ctx"
| "keys_after (RightOf l a k c # ctx) = keys_after ctx"

lemma keys_plug: "keys (plug ctx t) = keys_before ctx @ keys t @ keys_after ctx"
proof (induction ctx arbitrary: t)
  case Nil
  then show ?case by simp
next
  case (Cons f ctx)
  show ?case
    by (cases f) (auto simp: Cons.IH)
qed

lemma color_of_plug:
  "color_of (plug ctx t) = (if ctx = [] then color_of t else frame_color (last ctx))"
proof (induction ctx arbitrary: t)
  case Nil
  then show ?case by simp
next
  case (Cons f ctx)
  show ?case
    by (cases f) (auto simp: Cons.IH)
qed

lemma blacken_props [simp]:
  "no_red_red t \<Longrightarrow> no_red_red (blacken t)"
  "bal (blacken t) = bal t"
  "keys (blacken t) = keys t"
  "addrs (blacken t) = addrs t"
  "uniq (blacken t) = uniq t"
  "color_of (blacken t) = black"
  by (cases t; simp)+

text \<open>What holds while \<^verbatim>\<open>fix_insert\<close> runs, for the subtree at \<^verbatim>\<open>node\<close> and the path above.\<close>

definition insert_inv :: "frame list \<Rightarrow> tree \<Rightarrow> bool" where
  "insert_inv ctx t =
     (t \<noteq> Leaf \<and> no_red_red t \<and> nrr_ctx ctx \<and> bal t \<and> bal_ctx ctx (bh t)
      \<and> (if ctx = [] then True else frame_color (last ctx) = black))"

lemma bh_blacken_red: "color_of u = red \<Longrightarrow> bh (blacken u) = Suc (bh u)"
  by (cases u) auto

lemma last_tl2: "last (a # b # xs) = last (b # xs)"
  by simp

lemma a_fix_insert_inv:
  "insert_inv ctx t \<Longrightarrow>
   \<exists>t'. a_fix_insert ctx t = Some t' \<and> color_of t' = black \<and> no_red_red t' \<and> bal t'
      \<and> keys t' = keys (plug ctx t) \<and> addrs t' = addrs (plug ctx t)"
proof (induction "length ctx" arbitrary: ctx t rule: less_induct)
  case less
  note inv = less.prems
  from inv obtain l n k c r where t: "t = Node l n k c r"
    by (cases t) (auto simp: insert_inv_def)
  show ?case
  proof (cases "ctx \<noteq> [] \<and> c \<noteq> black \<and> frame_color (hd ctx) = red")
    case False
    then have "a_fix_insert ctx t = Some (blacken (plug ctx t))"
      unfolding t by (cases "(ctx, Node l n k c r)" rule: a_fix_insert.cases) auto
    moreover from False inv have "no_red_red t \<and> nrr_ctx ctx
        \<and> (case ctx of [] \<Rightarrow> True
           | f # _ \<Rightarrow> (if frame_color f = red then color_of t = black else True))"
      by (cases ctx) (auto simp: insert_inv_def t)
    then have "no_red_red (plug ctx t)" by (simp only: no_red_red_plug)
    moreover from inv have "bal (plug ctx t)" by (simp add: bal_plug insert_inv_def)
    ultimately show ?thesis by simp
  next
    case loop: True
    then obtain P ctx1 where ctx1: "ctx = P # ctx1" by (cases ctx) auto
    from loop inv ctx1 have "ctx1 \<noteq> []" by (auto simp: insert_inv_def)
    then obtain G ctx2 where ctx2: "ctx1 = G # ctx2" by (cases ctx1) auto
    have ctx: "ctx = P # G # ctx2" by (simp add: ctx1 ctx2)
    have len: "length ctx2 < length ctx" by (simp add: ctx)
    from loop ctx have red: "c = red" "frame_color P = red" by auto
    have step: "\<exists>t'. a_fix_insert ctx t = Some t' \<and> color_of t' = black \<and> no_red_red t'
        \<and> bal t' \<and> keys t' = keys (plug ctx t) \<and> addrs t' = addrs (plug ctx t)"
      if "a_fix_insert ctx t = a_fix_insert ctx2 t1" "insert_inv ctx2 t1"
        "keys (plug ctx2 t1) = keys (plug ctx t)" "addrs (plug ctx2 t1) = addrs (plug ctx t)"
      for t1
      using less.hyps[OF len that(2)] that(1,3,4) by simp
    from inv have last: "if ctx2 = [] then True else frame_color (last ctx2) = black"
      by (auto simp: insert_inv_def ctx)
    show ?thesis
    proof (cases G)
      case G: (LeftOf g kg cg u)
      show ?thesis
      proof (cases "color_of u = red")
        case True
        show ?thesis
        proof (rule step)
          show "a_fix_insert ctx t = a_fix_insert ctx2
              (Node (fill (set_frame_color P black) t) g kg red (blacken u))"
            using red True by (simp add: ctx t G)
          show "insert_inv ctx2 (Node (fill (set_frame_color P black) t) g kg red (blacken u))"
            using inv red True last
            by (cases P) (auto simp: insert_inv_def ctx t G bh_blacken_red)
          show "keys (plug ctx2 (Node (fill (set_frame_color P black) t) g kg red (blacken u)))
              = keys (plug ctx t)"
            by (cases P) (auto simp: keys_plug ctx t G)
          show "addrs (plug ctx2 (Node (fill (set_frame_color P black) t) g kg red (blacken u)))
              = addrs (plug ctx t)"
            by (cases P) (auto simp: addrs_plug ctx t G)
        qed
      next
        case False
        show ?thesis
        proof (cases P)
          case P: (LeftOf p kp cp pr)
          show ?thesis
          proof (rule step)
            show "a_fix_insert ctx t = a_fix_insert ctx2
                (Node (Node l n k c r) p kp black (Node pr g kg red u))"
              using red False by (simp add: ctx t G P)
            show "insert_inv ctx2 (Node (Node l n k c r) p kp black (Node pr g kg red u))"
              using inv red False last
              by (auto simp: insert_inv_def ctx t G P)
            show "keys (plug ctx2 (Node (Node l n k c r) p kp black (Node pr g kg red u)))
                = keys (plug ctx t)"
              by (auto simp: keys_plug ctx t G P)
            show "addrs (plug ctx2 (Node (Node l n k c r) p kp black (Node pr g kg red u)))
                = addrs (plug ctx t)"
              by (auto simp: addrs_plug ctx t G P)
          qed
        next
          case P: (RightOf pl p kp cp)
          show ?thesis
          proof (rule step)
            show "a_fix_insert ctx t = a_fix_insert ctx2
                (Node (Node pl p kp cp l) n k black (Node r g kg red u))"
              using red False by (simp add: ctx t G P)
            show "insert_inv ctx2 (Node (Node pl p kp cp l) n k black (Node r g kg red u))"
              using inv red False last
              by (auto simp: insert_inv_def ctx t G P)
            show "keys (plug ctx2 (Node (Node pl p kp cp l) n k black (Node r g kg red u)))
                = keys (plug ctx t)"
              by (auto simp: keys_plug ctx t G P)
            show "addrs (plug ctx2 (Node (Node pl p kp cp l) n k black (Node r g kg red u)))
                = addrs (plug ctx t)"
              by (auto simp: addrs_plug ctx t G P)
          qed
        qed
      qed
    next
      case G: (RightOf u g kg cg)
      show ?thesis
      proof (cases "color_of u = red")
        case True
        show ?thesis
        proof (rule step)
          show "a_fix_insert ctx t = a_fix_insert ctx2
              (Node (blacken u) g kg red (fill (set_frame_color P black) t))"
            using red True by (simp add: ctx t G)
          show "insert_inv ctx2 (Node (blacken u) g kg red (fill (set_frame_color P black) t))"
            using inv red True last
            by (cases P) (auto simp: insert_inv_def ctx t G bh_blacken_red)
          show "keys (plug ctx2 (Node (blacken u) g kg red (fill (set_frame_color P black) t)))
              = keys (plug ctx t)"
            by (cases P) (auto simp: keys_plug ctx t G)
          show "addrs (plug ctx2 (Node (blacken u) g kg red (fill (set_frame_color P black) t)))
              = addrs (plug ctx t)"
            by (cases P) (auto simp: addrs_plug ctx t G)
        qed
      next
        case False
        show ?thesis
        proof (cases P)
          case P: (LeftOf p kp cp pr)
          show ?thesis
          proof (rule step)
            show "a_fix_insert ctx t = a_fix_insert ctx2
                (Node (Node u g kg red l) n k black (Node r p kp cp pr))"
              using red False by (simp add: ctx t G P)
            show "insert_inv ctx2 (Node (Node u g kg red l) n k black (Node r p kp cp pr))"
              using inv red False last
              by (auto simp: insert_inv_def ctx t G P)
            show "keys (plug ctx2 (Node (Node u g kg red l) n k black (Node r p kp cp pr)))
                = keys (plug ctx t)"
              by (auto simp: keys_plug ctx t G P)
            show "addrs (plug ctx2 (Node (Node u g kg red l) n k black (Node r p kp cp pr)))
                = addrs (plug ctx t)"
              by (auto simp: addrs_plug ctx t G P)
          qed
        next
          case P: (RightOf pl p kp cp)
          show ?thesis
          proof (rule step)
            show "a_fix_insert ctx t = a_fix_insert ctx2
                (Node (Node u g kg red pl) p kp black (Node l n k c r))"
              using red False by (simp add: ctx t G P)
            show "insert_inv ctx2 (Node (Node u g kg red pl) p kp black (Node l n k c r))"
              using inv red False last
              by (auto simp: insert_inv_def ctx t G P)
            show "keys (plug ctx2 (Node (Node u g kg red pl) p kp black (Node l n k c r)))
                = keys (plug ctx t)"
              by (auto simp: keys_plug ctx t G P)
            show "addrs (plug ctx2 (Node (Node u g kg red pl) p kp black (Node l n k c r)))
                = addrs (plug ctx t)"
              by (auto simp: addrs_plug ctx t G P)
          qed
        qed
      qed
    qed
  qed
qed


section \<open>Insertion keeps the invariants\<close>

lemma plug_ins_path_Leaf:
  "find_node t x = None \<Longrightarrow> plug (ins_path t x ctx) Leaf = plug ctx t"
  by (induction t arbitrary: ctx) (auto split: if_splits)

lemma bst_ins:
  "bst t \<Longrightarrow> bst (ins n x t) \<and> set (keys (ins n x t)) = insert x (set (keys t))"
  by (induction t) (auto simp: list_all_iff)

lemma insert_inv_ins_path:
  assumes "color_of t = black" and "no_red_red t" and "bal t" and "find_node t x = None"
  shows "insert_inv (ins_path t x []) (Node Leaf n x red Leaf)"
proof -
  let ?p = "ins_path t x []"
  from assms(4) have p: "plug ?p Leaf = t"
    using plug_ins_path_Leaf[of t x "[]"] by simp
  from assms(2) have "nrr_ctx ?p"
    using no_red_red_plug[of ?p Leaf] by (simp add: p)
  moreover from assms(3) have "bal_ctx ?p 0"
    using bal_plug[of ?p Leaf] by (simp add: p)
  moreover from assms(1) have "if ?p = [] then True else frame_color (last ?p) = black"
    using color_of_plug[of ?p Leaf] by (simp add: p split: if_splits)
  ultimately show ?thesis by (simp add: insert_inv_def)
qed

text \<open>
  \<^verbatim>\<open>insert_node\<close> on a red-black tree returns, the tree it leaves is a red-black tree, and
  its keys are the keys before and the new one.
\<close>

lemma insert_node_rbt:
  assumes "represents s t" and "rbt t"
  shows "\<exists>s' t'. insert_node x s = Some s' \<and> represents s' t' \<and> rbt t'
           \<and> set (keys t') = insert x (set (keys t))"
proof (cases "find_node t x")
  case (Some a)
  then have "insert_node x s = Some s"
    by (simp add: insert_node_def search_tree_find[OF assms(1)])
  moreover from Some assms(2) have "x \<in> set (keys t)"
    using find_None_iff[of t x] by (auto simp: rbt_def)
  ultimately show ?thesis using assms by auto
next
  case None
  let ?n = "fresh s"
  from assms(2) have "insert_inv (ins_path t x []) (Node Leaf ?n x red Leaf)"
    by (intro insert_inv_ins_path None) (simp_all add: rbt_def root_black_def balanced_bal)
  from a_fix_insert_inv[OF this] obtain t' where
    afi: "a_fix_insert (ins_path t x []) (Node Leaf ?n x red Leaf) = Some t'"
    and c: "color_of t' = black" "no_red_red t'" "bal t'"
    and k: "keys t' = keys (plug (ins_path t x []) (Node Leaf ?n x red Leaf))"
    by blast
  from k have k': "keys t' = keys (ins ?n x t)"
    by (simp add: plug_ins_path[OF None])
  from assms(2) have "bst (ins ?n x t)" "set (keys (ins ?n x t)) = insert x (set (keys t))"
    using bst_ins[of t ?n x] by (simp_all add: rbt_def)
  with k' have "bst t'" "set (keys t') = insert x (set (keys t))"
    by (simp_all add: bst_sorted)
  with c have "rbt t'" by (simp add: rbt_def root_black_def balanced_bal)
  moreover from insert_node_refines[OF assms(1) None afi]
  obtain s' where "insert_node x s = Some s'" "represents s' t'" by blast
  ultimately show ?thesis using \<open>set (keys t') = insert x (set (keys t))\<close> by blast
qed

section \<open>Repairing a double black, on the tree\<close>

text \<open>
  \<^verbatim>\<open>fix_double_black\<close> never looks below its argument: it works on the path above the
  node. \<open>a_fix_double_black ctx\<close> is the path above the same node when the repair
  returns.
\<close>

fun tsize :: "tree \<Rightarrow> nat" where
  "tsize Leaf = 0"
| "tsize (Node l a k c r) = Suc (tsize l + tsize r)"

fun ctx_size :: "frame list \<Rightarrow> nat" where
  "ctx_size [] = 0"
| "ctx_size (f # ctx) = Suc (tsize (sib f) + ctx_size ctx)"

fun sib_size :: "frame list \<Rightarrow> nat" where
  "sib_size [] = 0"
| "sib_size (f # ctx) = tsize (sib f)"

fun paint :: "bool \<Rightarrow> tree \<Rightarrow> tree" where
  "paint c Leaf = Leaf"
| "paint c (Node l a k c' r) = Node l a k c r"

function a_fix_double_black :: "frame list \<Rightarrow> frame list" where
  "a_fix_double_black [] = []"
| "a_fix_double_black (LeftOf p kp cp Leaf # ctx) =
     LeftOf p kp cp Leaf # a_fix_double_black ctx"
| "a_fix_double_black (RightOf Leaf p kp cp # ctx) =
     RightOf Leaf p kp cp # a_fix_double_black ctx"
| "a_fix_double_black (LeftOf p kp cp (Node sl sa sk sc sr) # ctx) =
     (if sc = red then
        a_fix_double_black (LeftOf p kp red sl # LeftOf sa sk black sr # ctx)
      else if color_of sl = red \<or> color_of sr = red then
        (case sl of
           Node sll sla slk red slr \<Rightarrow>
             LeftOf p kp black sll # LeftOf sla slk cp (Node slr sa sk sc sr) # ctx
         | _ \<Rightarrow> LeftOf p kp black sl # LeftOf sa sk cp (paint sc sr) # ctx)
      else if cp = black then
        LeftOf p kp cp (Node sl sa sk red sr) # a_fix_double_black ctx
      else LeftOf p kp black (Node sl sa sk red sr) # ctx)"
| "a_fix_double_black (RightOf (Node sl sa sk sc sr) p kp cp # ctx) =
     (if sc = red then
        a_fix_double_black (RightOf sr p kp red # RightOf sl sa sk black # ctx)
      else if color_of sl = red \<or> color_of sr = red then
        (case sl of
           Node sll sla slk red slr \<Rightarrow>
             RightOf sr p kp black # RightOf (Node sll sla slk sc slr) sa sk cp # ctx
         | _ \<Rightarrow>
             (case sr of
                Node srl sra srk src srr \<Rightarrow>
                  RightOf srr p kp black # RightOf (Node sl sa sk sc srl) sra srk cp # ctx
              | Leaf \<Rightarrow> RightOf (Node sl sa sk sc sr) p kp black # ctx))
      else if cp = black then
        RightOf (Node sl sa sk red sr) p kp cp # a_fix_double_black ctx
      else RightOf (Node sl sa sk red sr) p kp black # ctx)"
  by pat_completeness auto

termination
  by (relation "measures [ctx_size, sib_size]") auto


text \<open>The nodes that \<^verbatim>\<open>fix_double_black\<close> is called on, in the order of the calls.\<close>

function fix_double_black_calls :: "frame list \<Rightarrow> nat \<Rightarrow> nat list" where
  "fix_double_black_calls [] n = [n]"
| "fix_double_black_calls (LeftOf p kp cp Leaf # ctx) n = n # fix_double_black_calls ctx p"
| "fix_double_black_calls (RightOf Leaf p kp cp # ctx) n = n # fix_double_black_calls ctx p"
| "fix_double_black_calls (LeftOf p kp cp (Node sl sa sk sc sr) # ctx) n =
     (if sc = red then
        n # fix_double_black_calls (LeftOf p kp red sl # LeftOf sa sk black sr # ctx) n
      else if color_of sl = red \<or> color_of sr = red then [n]
      else if cp = black then n # fix_double_black_calls ctx p
      else [n])"
| "fix_double_black_calls (RightOf (Node sl sa sk sc sr) p kp cp # ctx) n =
     (if sc = red then
        n # fix_double_black_calls (RightOf sr p kp red # RightOf sl sa sk black # ctx) n
      else if color_of sl = red \<or> color_of sr = red then [n]
      else if cp = black then n # fix_double_black_calls ctx p
      else [n])"
  by pat_completeness auto

termination
  by (relation "measures [\<lambda>(ctx, n). ctx_size ctx, \<lambda>(ctx, n). sib_size ctx]") auto

section \<open>Deletion, on the tree\<close>

text \<open>The leftmost node of a subtree, where \<^verbatim>\<open>min\<close> stops, and the path down to it.\<close>

fun min_tree :: "tree \<Rightarrow> tree" where
  "min_tree Leaf = Leaf"
| "min_tree (Node l a k c r) = (if l = Leaf then Node l a k c r else min_tree l)"

fun min_path :: "tree \<Rightarrow> frame list \<Rightarrow> frame list" where
  "min_path Leaf ctx = ctx"
| "min_path (Node l a k c r) ctx = (if l = Leaf then ctx else min_path l (LeftOf a k c r # ctx))"

fun key_of :: "tree \<Rightarrow> int" where
  "key_of Leaf = 0"
| "key_of (Node l a k c r) = k"

fun set_key :: "int \<Rightarrow> tree \<Rightarrow> tree" where
  "set_key x Leaf = Leaf"
| "set_key x (Node l a k c r) = Node l a x c r"

fun paint_sib :: "bool \<Rightarrow> frame \<Rightarrow> frame" where
  "paint_sib c' (LeftOf a k c r) = LeftOf a k c (paint c' r)"
| "paint_sib c' (RightOf l a k c) = RightOf (paint c' l) a k c"

text \<open>
  \<^verbatim>\<open>delete_helper\<close> on a node with at most one child: the part of the method before the
  last two lines.
\<close>

fun a_delete_simple :: "frame list \<Rightarrow> tree \<Rightarrow> tree" where
  "a_delete_simple ctx Leaf = plug ctx Leaf"
| "a_delete_simple ctx (Node l n k c r) =
     (if l = Leaf \<and> r = Leaf then
        (case ctx of
           [] \<Rightarrow> Leaf
         | f # ctx' \<Rightarrow>
             (if c = black then plug (a_fix_double_black ctx) Leaf
              else plug (paint_sib red f # ctx') Leaf))
      else
        (let m = (if l \<noteq> Leaf then l else r) in
         (case ctx of
            [] \<Rightarrow> Node Leaf n (key_of m) c Leaf
          | f # ctx' \<Rightarrow>
              (if color_of m = black \<and> c = black then plug (a_fix_double_black ctx) m
               else plug ctx (blacken m)))))"

text \<open>
  \<^verbatim>\<open>delete_helper\<close>: with two children the keys of the node and of the leftmost node
  \<open>m\<close> of the right subtree are swapped, and the method runs again on \<open>m\<close>.
\<close>

definition a_delete_helper :: "frame list \<Rightarrow> tree \<Rightarrow> tree" where
  "a_delete_helper ctx t =
     (case t of
        Leaf \<Rightarrow> plug ctx Leaf
      | Node l n k c r \<Rightarrow>
          (if l \<noteq> Leaf \<and> r \<noteq> Leaf then
             a_delete_simple (min_path r (RightOf l n (key_of (min_tree r)) c # ctx))
               (set_key k (min_tree r))
           else a_delete_simple ctx t))"

text \<open>The position of the node \<^verbatim>\<open>search_tree\<close> finds.\<close>

fun find_path :: "tree \<Rightarrow> int \<Rightarrow> frame list \<Rightarrow> frame list" where
  "find_path Leaf x ctx = ctx"
| "find_path (Node l a k c r) x ctx =
     (if x = k then ctx
      else if x < k then find_path l x (LeftOf a k c r # ctx)
      else find_path r x (RightOf l a k c # ctx))"

fun find_tree :: "tree \<Rightarrow> int \<Rightarrow> tree" where
  "find_tree Leaf x = Leaf"
| "find_tree (Node l a k c r) x =
     (if x = k then Node l a k c r
      else if x < k then find_tree l x
      else find_tree r x)"

definition a_delete_node :: "int \<Rightarrow> tree \<Rightarrow> tree" where
  "a_delete_node x t = a_delete_helper (find_path t x []) (find_tree t x)"

text \<open>The calls of \<^verbatim>\<open>fix_double_black\<close> that \<^verbatim>\<open>delete_helper\<close> leads to.\<close>

fun addr_of :: "tree \<Rightarrow> nat" where
  "addr_of Leaf = 0"
| "addr_of (Node l a k c r) = a"

fun repair_calls :: "frame list \<Rightarrow> tree \<Rightarrow> nat list" where
  "repair_calls ctx Leaf = []"
| "repair_calls ctx (Node l n k c r) =
     (if ctx = [] then []
      else if l = Leaf \<and> r = Leaf then
        (if c = black then fix_double_black_calls ctx n else [])
      else
        (let m = (if l \<noteq> Leaf then l else r) in
         if color_of m = black \<and> c = black then fix_double_black_calls ctx (addr_of m)
         else []))"

definition delete_calls :: "frame list \<Rightarrow> tree \<Rightarrow> call list" where
  "delete_calls ctx t =
     (case t of
        Leaf \<Rightarrow> []
      | Node l n k c r \<Rightarrow>
          (if l \<noteq> Leaf \<and> r \<noteq> Leaf then
             Delete_helper (Some n) # Delete_helper (ptr (min_tree r))
               # map (\<lambda>a. Fix_double_black (Some a))
                   (repair_calls (min_path r (RightOf l n (key_of (min_tree r)) c # ctx))
                      (set_key k (min_tree r)))
           else Delete_helper (Some n)
               # map (\<lambda>a. Fix_double_black (Some a)) (repair_calls ctx t)))"

section \<open>Deletion keeps the invariants\<close>

fun on_left :: "frame \<Rightarrow> bool" where
  "on_left (LeftOf a k c r) = True"
| "on_left (RightOf l a k c) = False"

lemma keys_paint [simp]: "keys (paint c t) = keys t"
  by (cases t) auto

lemma a_fix_double_black_keys:
  "keys_before (a_fix_double_black ctx) = keys_before ctx
   \<and> keys_after (a_fix_double_black ctx) = keys_after ctx"
  by (induction ctx rule: a_fix_double_black.induct) (auto split: tree.splits bool.splits)

lemma a_fix_double_black_Nil [simp]: "(a_fix_double_black ctx = []) = (ctx = [])"
  by (induction ctx rule: a_fix_double_black.induct) (auto split: tree.splits bool.splits)

lemma a_fix_double_black_hd:
  "ctx \<noteq> [] \<Longrightarrow>
   frame_addr (hd (a_fix_double_black ctx)) = frame_addr (hd ctx)
   \<and> on_left (hd (a_fix_double_black ctx)) = on_left (hd ctx)"
  by (induction ctx rule: a_fix_double_black.induct) (auto split: tree.splits bool.splits)

text \<open>
  The path above a node whose subtree is one black node short: before the repair the
  path is balanced for a black height of \<open>Suc h\<close>, after it for \<open>h\<close>.
\<close>

definition path_ok :: "frame list \<Rightarrow> bool" where
  "path_ok ctx = (nrr_ctx ctx \<and> (if ctx = [] then True else frame_color (last ctx) = black))"

lemma bh_red_pos: "no_red_red t \<Longrightarrow> bh t = Suc h \<Longrightarrow> t \<noteq> Leaf"
  by (cases t) auto

lemma a_fix_double_black_inv:
  "path_ok ctx \<Longrightarrow> bal_ctx ctx (Suc h) \<Longrightarrow>
   path_ok (a_fix_double_black ctx) \<and> bal_ctx (a_fix_double_black ctx) h
   \<and> (if ctx = [] then True else frame_color (hd (a_fix_double_black ctx)) = black)"
proof (induction ctx arbitrary: h rule: a_fix_double_black.induct)
  case 1
  then show ?case by simp
next
  case (2 p kp cp ctx)
  then show ?case by simp
next
  case (3 p kp cp ctx)
  then show ?case by simp
next
  case (4 p kp cp sl sa sk sc sr ctx)
  note pre = "4.prems"
  show ?case
  proof (cases sc)
    case False
    with pre have "path_ok (LeftOf p kp red sl # LeftOf sa sk black sr # ctx)"
      "bal_ctx (LeftOf p kp red sl # LeftOf sa sk black sr # ctx) (Suc h)"
      by (auto simp: path_ok_def split: if_splits list.splits)
    from "4.IH"(1)[OF _ this] False show ?thesis by simp
  next
    case True
    show ?thesis
    proof (cases "color_of sl = red \<or> color_of sr = red")
      case rc: True
      show ?thesis
      proof (cases "color_of sl = red")
        case True
        then obtain sll sla slk slr where "sl = Node sll sla slk red slr" by (cases sl) auto
        with pre \<open>sc\<close> show ?thesis
          by (auto simp: path_ok_def split: if_splits list.splits)
      next
        case False
        with rc obtain srl sra srk srr where "sr = Node srl sra srk red srr" by (cases sr) auto
        with pre \<open>sc\<close> False show ?thesis
          by (cases sl) (auto simp: path_ok_def split: if_splits list.splits bool.splits)
      qed
    next
      case nrc: False
      show ?thesis
      proof (cases cp)
        case False
        with pre \<open>sc\<close> nrc show ?thesis
          by (auto simp: path_ok_def split: if_splits list.splits)
      next
        case True
        with pre have "path_ok ctx" "bal_ctx ctx (Suc (Suc h))"
          by (auto simp: path_ok_def split: if_splits list.splits)
        from "4.IH"(2)[OF _ _ _ this] \<open>sc\<close> nrc True
        have "path_ok (a_fix_double_black ctx) \<and> bal_ctx (a_fix_double_black ctx) (Suc h)"
          by simp
        with pre \<open>sc\<close> nrc True show ?thesis
          by (auto simp: path_ok_def split: if_splits list.splits)
      qed
    qed
  qed
next
  case (5 sl sa sk sc sr p kp cp ctx)
  note pre = "5.prems"
  show ?case
  proof (cases sc)
    case False
    with pre have "path_ok (RightOf sr p kp red # RightOf sl sa sk black # ctx)"
      "bal_ctx (RightOf sr p kp red # RightOf sl sa sk black # ctx) (Suc h)"
      by (auto simp: path_ok_def split: if_splits list.splits)
    from "5.IH"(1)[OF _ this] False show ?thesis by simp
  next
    case True
    show ?thesis
    proof (cases "color_of sl = red \<or> color_of sr = red")
      case rc: True
      show ?thesis
      proof (cases "color_of sl = red")
        case True
        then obtain sll sla slk slr where "sl = Node sll sla slk red slr" by (cases sl) auto
        with pre \<open>sc\<close> show ?thesis
          by (auto simp: path_ok_def split: if_splits list.splits)
      next
        case False
        with rc obtain srl sra srk srr where "sr = Node srl sra srk red srr" by (cases sr) auto
        with pre \<open>sc\<close> False show ?thesis
          by (cases sl) (auto simp: path_ok_def split: if_splits list.splits bool.splits)
      qed
    next
      case nrc: False
      show ?thesis
      proof (cases cp)
        case False
        with pre \<open>sc\<close> nrc show ?thesis
          by (auto simp: path_ok_def split: if_splits list.splits)
      next
        case True
        with pre have "path_ok ctx" "bal_ctx ctx (Suc (Suc h))"
          by (auto simp: path_ok_def split: if_splits list.splits)
        from "5.IH"(2)[OF _ _ _ this] \<open>sc\<close> nrc True
        have "path_ok (a_fix_double_black ctx) \<and> bal_ctx (a_fix_double_black ctx) (Suc h)"
          by simp
        with pre \<open>sc\<close> nrc True show ?thesis
          by (auto simp: path_ok_def split: if_splits list.splits)
      qed
    qed
  qed
qed


text \<open>The height of a tree: the number of nodes on its longest path downward.\<close>

fun height :: "tree \<Rightarrow> nat" where
  "height Leaf = 0"
| "height (Node l a k c r) = Suc (max (height l) (height r))"

lemma height_plug: "length ctx + height t \<le> height (plug ctx t)"
proof (induction ctx arbitrary: t)
  case Nil
  then show ?case by simp
next
  case (Cons f ctx)
  have "height t < height (fill f t)" by (cases f) auto
  with Cons[of "fill f t"] show ?case by simp
qed

lemma fix_double_black_calls_bound:
  "nrr_ctx ctx \<Longrightarrow> bal_ctx ctx (Suc h) \<Longrightarrow>
   length (fix_double_black_calls ctx n)
     \<le> (if ctx \<noteq> [] \<and> frame_color (hd ctx) = red then 1 else Suc (length ctx))"
proof (induction ctx n arbitrary: h rule: fix_double_black_calls.induct)
  case (1 n)
  then show ?case by simp
next
  case (2 p kp cp ctx n)
  then show ?case by simp
next
  case (3 p kp cp ctx n)
  then show ?case by simp
next
  case (4 p kp cp sl sa sk sc sr ctx n)
  note pre = "4.prems"
  show ?case
  proof (cases sc)
    case False
    with pre have "nrr_ctx (LeftOf p kp red sl # LeftOf sa sk black sr # ctx)"
      "bal_ctx (LeftOf p kp red sl # LeftOf sa sk black sr # ctx) (Suc h)"
      by (auto split: if_splits list.splits)
    from "4.IH"(1)[OF _ this] False pre show ?thesis by (auto split: if_splits)
  next
    case True
    show ?thesis
    proof (cases "\<not> (color_of sl = red \<or> color_of sr = red) \<and> cp = black")
      case False
      with True show ?thesis by auto
    next
      case up: True
      with pre True have "nrr_ctx ctx" "bal_ctx ctx (Suc (Suc h))" by auto
      from "4.IH"(2)[OF _ _ _ this] True up show ?thesis by (auto split: if_splits)
    qed
  qed
next
  case (5 sl sa sk sc sr p kp cp ctx n)
  note pre = "5.prems"
  show ?case
  proof (cases sc)
    case False
    with pre have "nrr_ctx (RightOf sr p kp red # RightOf sl sa sk black # ctx)"
      "bal_ctx (RightOf sr p kp red # RightOf sl sa sk black # ctx) (Suc h)"
      by (auto split: if_splits list.splits)
    from "5.IH"(1)[OF _ this] False pre show ?thesis by (auto split: if_splits)
  next
    case True
    show ?thesis
    proof (cases "\<not> (color_of sl = red \<or> color_of sr = red) \<and> cp = black")
      case False
      with True show ?thesis by auto
    next
      case up: True
      with pre True have "nrr_ctx ctx" "bal_ctx ctx (Suc (Suc h))" by auto
      from "5.IH"(2)[OF _ _ _ this] True up show ?thesis by (auto split: if_splits)
    qed
  qed
qed

lemma paint_red_bh0: "bh t = 0 \<Longrightarrow> paint red t = t"
  by (cases t) (auto split: if_splits)

lemma paint_sib_red_bh0: "bh (sib f) = 0 \<Longrightarrow> paint_sib red f = f"
  by (cases f) (auto simp: paint_red_bh0)

lemma bh0_black: "bh t = 0 \<Longrightarrow> color_of t = black \<Longrightarrow> t = Leaf"
  by (cases t) auto

text \<open>
  Deleting a node with at most one child from a tree with invariants 2 to 4 leaves them
  in place, and takes the key of the node out of the in-order sequence.
\<close>

lemma a_delete_simple_inv:
  assumes one: "l = Leaf \<or> r = Leaf"
    and nrr: "no_red_red (plug ctx (Node l n k c r))"
    and bal: "bal (plug ctx (Node l n k c r))"
    and blk: "color_of (plug ctx (Node l n k c r)) = black"
  shows "no_red_red (a_delete_simple ctx (Node l n k c r))
       \<and> bal (a_delete_simple ctx (Node l n k c r))
       \<and> color_of (a_delete_simple ctx (Node l n k c r)) = black
       \<and> keys (a_delete_simple ctx (Node l n k c r))
           = keys_before ctx @ keys l @ keys r @ keys_after ctx"
proof -
  let ?t = "Node l n k c r"
  from nrr have n1: "no_red_red ?t" and n2: "nrr_ctx ctx"
    and n3: "case ctx of [] \<Rightarrow> True
             | f # _ \<Rightarrow> (if frame_color f = red then color_of ?t = black else True)"
    unfolding no_red_red_plug by simp_all
  from bal have b1: "bal ?t" and b2: "bal_ctx ctx (bh ?t)"
    by (auto simp: bal_plug)
  from blk have c1: "if ctx = [] then c = black else frame_color (last ctx) = black"
    unfolding color_of_plug by (simp split: if_splits)
  show ?thesis
  proof (cases "l = Leaf \<and> r = Leaf")
    case leaf: True
    show ?thesis
    proof (cases ctx)
      case Nil
      with leaf show ?thesis by simp
    next
      case (Cons f ctx')
      show ?thesis
      proof (cases c)
        case True
        let ?c = "a_fix_double_black ctx"
        from n2 c1 Cons have "path_ok ctx" by (simp add: path_ok_def)
        moreover from b2 leaf True have "bal_ctx ctx (Suc 0)" by simp
        ultimately have "path_ok ?c" "bal_ctx ?c 0" "frame_color (hd ?c) = black"
          using a_fix_double_black_inv[of ctx 0] Cons by simp_all
        moreover have "?c \<noteq> []" using Cons by simp
        ultimately have "no_red_red (plug ?c Leaf)" "bal (plug ?c Leaf)"
          "color_of (plug ?c Leaf) = black"
          unfolding no_red_red_plug bal_plug color_of_plug
          by (auto simp: path_ok_def split: list.splits)
        moreover have "keys (plug ?c Leaf) = keys_before ctx @ keys_after ctx"
          by (simp add: keys_plug a_fix_double_black_keys)
        ultimately show ?thesis using leaf True Cons by simp
      next
        case False
        from b2 leaf False Cons have "bh (sib f) = 0" by simp
        then have "paint_sib red f = f" by (rule paint_sib_red_bh0)
        then have eq: "a_delete_simple ctx ?t = plug ctx Leaf"
          using leaf False Cons by simp
        from n2 b2 c1 leaf False Cons
        have "no_red_red (plug ctx Leaf)" "bal (plug ctx Leaf)"
          "color_of (plug ctx Leaf) = black"
          unfolding no_red_red_plug bal_plug color_of_plug
          by (auto split: list.splits)
        then show ?thesis unfolding eq using leaf by (simp add: keys_plug)
      qed
    qed
  next
    case child: False
    define m where "m = (if l \<noteq> Leaf then l else r)"
    from child one have m: "(l = m \<and> r = Leaf) \<or> (l = Leaf \<and> r = m)" and mne: "m \<noteq> Leaf"
      by (auto simp: m_def)
    from b1 have "bh l = bh r" "bal l" "bal r" by simp_all
    with m have bm: "bh m = 0" "bal m" by (elim disjE; simp)+
    from n1 have "no_red_red l" "no_red_red r" by simp_all
    with m have nm: "no_red_red m" by (elim disjE; simp)
    from bm(1) mne have mred: "color_of m = red" using bh0_black[of m] by blast
    from n1 have "c = red \<Longrightarrow> color_of l = black \<and> color_of r = black" by simp
    with m mred have cblack: "c = black" by (cases c; elim disjE; simp)
    from mred obtain ml ma mk mr where mN: "m = Node ml ma mk red mr" by (cases m) auto
    from bm nm have "bh ml = 0" "color_of ml = black" "bh mr = 0" "color_of mr = black"
      unfolding mN by simp_all
    then have "ml = Leaf" "mr = Leaf"
      using bh0_black[of ml] bh0_black[of mr] by blast+
    with mN have mleaf: "m = Node Leaf ma mk red Leaf" by simp
    have lr: "(l = Node Leaf ma mk red Leaf \<and> r = Leaf)
        \<or> (l = Leaf \<and> r = Node Leaf ma mk red Leaf)"
      using m unfolding mleaf .
    have km: "keys l @ keys r = [mk]" using lr by (elim disjE; simp)
    show ?thesis
    proof (cases ctx)
      case Nil
      from lr show ?thesis
        by (elim disjE; simp add: cblack Nil)
    next
      case (Cons f ctx')
      have eq: "a_delete_simple ctx ?t = plug ctx (Node Leaf ma mk black Leaf)"
        using lr by (elim disjE; simp add: Cons)
      from n3 Cons have "frame_color f = red \<Longrightarrow> c = black" by simp
      have "no_red_red (Node Leaf ma mk black Leaf)" by simp
      with n2 have "no_red_red (plug ctx (Node Leaf ma mk black Leaf))"
        unfolding no_red_red_plug by (simp split: list.splits)
      moreover have "bh ?t = bh (Node Leaf ma mk black Leaf)"
        using lr cblack by (elim disjE; simp)
      with b2 have "bal (plug ctx (Node Leaf ma mk black Leaf))"
        unfolding bal_plug by simp
      moreover from c1 Cons have "color_of (plug ctx (Node Leaf ma mk black Leaf)) = black"
        unfolding color_of_plug by simp
      ultimately show ?thesis unfolding eq using km by (simp add: keys_plug)
    qed
  qed
qed

lemma min_tree_Node:
  "r \<noteq> Leaf \<Longrightarrow> \<exists>ma mk mc mr. min_tree r = Node Leaf ma mk mc mr"
  by (induction r) auto

lemma plug_min_path: "plug (min_path r ctx) (min_tree r) = plug ctx r"
  by (induction r arbitrary: ctx) auto

lemma min_path_keys:
  "keys_before (min_path r ctx) = keys_before ctx
   \<and> keys (min_tree r) @ keys_after (min_path r ctx) = keys r @ keys_after ctx"
  by (induction r arbitrary: ctx) auto

lemma set_key_props [simp]:
  "no_red_red (set_key x t) = no_red_red t"
  "color_of (set_key x t) = color_of t"
  "bal (set_key x t) = bal t"
  "bh (set_key x t) = bh t"
  by (cases t; simp)+

text \<open>The invariants 2 to 4 do not look at the keys.\<close>

lemma min_path_set_key:
  "no_red_red (plug (min_path r ctx) (set_key x (min_tree r))) = no_red_red (plug ctx r)
   \<and> bal (plug (min_path r ctx) (set_key x (min_tree r))) = bal (plug ctx r)
   \<and> color_of (plug (min_path r ctx) (set_key x (min_tree r))) = color_of (plug ctx r)"
proof -
  have "no_red_red (plug (min_path r ctx) (set_key x (min_tree r)))
      = no_red_red (plug (min_path r ctx) (min_tree r))"
    "bal (plug (min_path r ctx) (set_key x (min_tree r)))
      = bal (plug (min_path r ctx) (min_tree r))"
    "color_of (plug (min_path r ctx) (set_key x (min_tree r)))
      = color_of (plug (min_path r ctx) (min_tree r))"
    unfolding no_red_red_plug bal_plug color_of_plug by (simp_all split: list.splits)
  then show ?thesis by (simp add: plug_min_path)
qed

lemma a_delete_helper_inv:
  assumes nrr: "no_red_red (plug ctx (Node l n k c r))"
    and bal: "bal (plug ctx (Node l n k c r))"
    and blk: "color_of (plug ctx (Node l n k c r)) = black"
  shows "no_red_red (a_delete_helper ctx (Node l n k c r))
       \<and> bal (a_delete_helper ctx (Node l n k c r))
       \<and> color_of (a_delete_helper ctx (Node l n k c r)) = black
       \<and> keys (a_delete_helper ctx (Node l n k c r))
           = keys_before ctx @ keys l @ keys r @ keys_after ctx"
proof (cases "l \<noteq> Leaf \<and> r \<noteq> Leaf")
  case False
  then have "a_delete_helper ctx (Node l n k c r) = a_delete_simple ctx (Node l n k c r)"
    by (auto simp: a_delete_helper_def simp del: a_delete_simple.simps)
  moreover from False have "l = Leaf \<or> r = Leaf" by simp
  ultimately show ?thesis using a_delete_simple_inv[OF _ nrr bal blk] by simp
next
  case True
  then obtain ma mk mc mr where mt: "min_tree r = Node Leaf ma mk mc mr"
    using min_tree_Node[of r] by auto
  let ?c = "min_path r (RightOf l n mk c # ctx)"
  have eq: "a_delete_helper ctx (Node l n k c r) = a_delete_simple ?c (Node Leaf ma k mc mr)"
    using True by (simp add: a_delete_helper_def mt del: a_delete_simple.simps)
  have sk: "set_key k (min_tree r) = Node Leaf ma k mc mr" by (simp add: mt)
  have "no_red_red (plug ctx (Node l n mk c r)) = no_red_red (plug ctx (Node l n k c r))"
    "bal (plug ctx (Node l n mk c r)) = bal (plug ctx (Node l n k c r))"
    "color_of (plug ctx (Node l n mk c r)) = color_of (plug ctx (Node l n k c r))"
    unfolding no_red_red_plug bal_plug color_of_plug by (simp_all split: list.splits)
  with nrr bal blk min_path_set_key[of r "RightOf l n mk c # ctx" k]
  have "no_red_red (plug ?c (Node Leaf ma k mc mr))" "bal (plug ?c (Node Leaf ma k mc mr))"
    "color_of (plug ?c (Node Leaf ma k mc mr)) = black"
    by (simp_all add: sk)
  from a_delete_simple_inv[OF _ this]
  have 1: "no_red_red (a_delete_simple ?c (Node Leaf ma k mc mr))"
    "bal (a_delete_simple ?c (Node Leaf ma k mc mr))"
    "color_of (a_delete_simple ?c (Node Leaf ma k mc mr)) = black"
    and 2: "keys (a_delete_simple ?c (Node Leaf ma k mc mr))
        = keys_before ?c @ keys mr @ keys_after ?c"
    by simp_all
  from min_path_keys[of r "RightOf l n mk c # ctx"]
  have "keys_before ?c = keys_before ctx @ keys l @ [mk]"
    "mk # keys mr @ keys_after ?c = keys r @ keys_after ctx"
    by (simp_all add: mt)
  then have "keys_before ?c @ keys mr @ keys_after ?c
      = keys_before ctx @ keys l @ keys r @ keys_after ctx" by simp
  with 1 2 show ?thesis by (simp add: eq)
qed

lemma plug_find_path: "plug (find_path t x ctx) (find_tree t x) = plug ctx t"
  by (induction t arbitrary: ctx) auto

lemma find_tree_Node:
  "bst t \<Longrightarrow> x \<in> set (keys t) \<Longrightarrow> \<exists>l n c r. find_tree t x = Node l n x c r"
  by (induction t) (auto simp: list_all_iff)

lemma ptr_find_tree: "ptr (find_tree t x) = find_node t x"
  by (induction t) auto

lemma sorted_remove_mid:
  "sorted_wrt (<) (xs @ x # ys) \<Longrightarrow>
   sorted_wrt (<) (xs @ ys) \<and> set (xs @ ys) = set (xs @ x # ys) - {x}"
  for x :: int
  by (auto simp: sorted_wrt_append)

text \<open>Deleting a key of a red-black tree leaves a red-black tree without the key.\<close>

lemma a_delete_node_rbt:
  assumes "rbt t" and "x \<in> set (keys t)"
  shows "rbt (a_delete_node x t) \<and> set (keys (a_delete_node x t)) = set (keys t) - {x}"
proof -
  from assms obtain l n c r where ft: "find_tree t x = Node l n x c r"
    using find_tree_Node[of t x] by (auto simp: rbt_def)
  let ?c = "find_path t x []"
  have pl: "plug ?c (Node l n x c r) = t"
    using plug_find_path[of t x "[]"] by (simp add: ft)
  from assms(1) have "no_red_red (plug ?c (Node l n x c r))" "bal (plug ?c (Node l n x c r))"
    "color_of (plug ?c (Node l n x c r)) = black"
    by (simp_all add: pl rbt_def root_black_def balanced_bal)
  from a_delete_helper_inv[OF this]
  have 1: "no_red_red (a_delete_node x t)" "bal (a_delete_node x t)"
    "color_of (a_delete_node x t) = black"
    and 2: "keys (a_delete_node x t) = (keys_before ?c @ keys l) @ keys r @ keys_after ?c"
    by (simp_all add: a_delete_node_def ft)
  have "keys t = (keys_before ?c @ keys l) @ x # keys r @ keys_after ?c"
    using keys_plug[of ?c "Node l n x c r"] by (simp add: pl)
  moreover from assms(1) have "sorted_wrt (<) (keys t)" by (simp add: rbt_def bst_sorted)
  ultimately have "sorted_wrt (<) (keys (a_delete_node x t))"
    "set (keys (a_delete_node x t)) = set (keys t) - {x}"
    using sorted_remove_mid[of "keys_before ?c @ keys l" x "keys r @ keys_after ?c"] 2
    by simp_all
  with 1 show ?thesis by (simp add: rbt_def root_black_def balanced_bal bst_sorted)
qed

section \<open>Deletion on the store\<close>

text \<open>
  \<open>repc s t cs\<close>: the store holds the tree \<open>t\<close> and the calls entered so far are \<open>cs\<close>.
\<close>

definition repc :: "RBTree \<Rightarrow> tree \<Rightarrow> call list \<Rightarrow> bool" where
  "repc s t cs = (represents s t \<and> calls s = cs)"

lemma wr_calls: "wr p f s = Some s' \<Longrightarrow> calls s' = calls s"
  by (auto simp: wr_def split: option.splits)

lemma rotate_left_calls: "rotate_left p s = Some s' \<Longrightarrow> calls s' = calls s"
  unfolding rotate_left_def
  by (auto simp: Let_def dest!: wr_calls split: bind_splits if_splits)

lemma rotate_right_calls: "rotate_right p s = Some s' \<Longrightarrow> calls s' = calls s"
  unfolding rotate_right_def
  by (auto simp: Let_def dest!: wr_calls split: bind_splits if_splits)

lemma represents_calls [simp]: "represents (s\<lparr>calls := cs\<rparr>) t = represents s t"
  by (simp add: represents_def)

lemma repc_log: "repc s t cs \<Longrightarrow> repc (s\<lparr>calls := calls s @ [c]\<rparr>) t (cs @ [c])"
  by (simp add: repc_def)

lemma repc_set_color:
  assumes "repc s (plug ctx (Node l a k c r)) cs"
  shows "\<exists>s'. wr (Some a) (\<lambda>x. x\<lparr>color := c'\<rparr>) s = Some s'
           \<and> repc s' (plug ctx (Node l a k c' r)) cs"
  using assms rep_set_color[of s ctx l a k c r c'] wr_calls
  unfolding repc_def by blast

lemma repc_rotate_left:
  assumes "repc s (plug ctx (Node l a k c (Node rl b kb cb rr))) cs"
  shows "\<exists>s'. rotate_left (Some a) s = Some s'
           \<and> repc s' (plug ctx (Node (Node l a k c rl) b kb cb rr)) cs"
  using assms rotate_left_rep[of s ctx l a k c rl b kb cb rr] rotate_left_calls
  unfolding repc_def by blast

lemma repc_rotate_right:
  assumes "repc s (plug ctx (Node (Node ll b kb cb lr) a k c r)) cs"
  shows "\<exists>s'. rotate_right (Some a) s = Some s'
           \<and> repc s' (plug ctx (Node ll b kb cb (Node lr a k c r))) cs"
  using assms rotate_right_rep[of s ctx ll b kb cb lr a k c r] rotate_right_calls
  unfolding repc_def by blast

lemma repc_cell:
  "repc s (plug ctx (Node l a k c r)) cs \<Longrightarrow>
   heap s a = Some \<lparr>key = k, parent = par_of ctx, left = ptr l, right = ptr r, color = c\<rparr>"
  unfolding repc_def using rep_cell by blast

text \<open>What the tests of \<^verbatim>\<open>fix_double_black\<close> read.\<close>

lemma rep_is_on_left:
  "represents s (plug (f # ctx) (Node l n k c r)) \<Longrightarrow>
   is_on_left (heap s) (Some n) = Some (on_left f)"
  by (cases f) (auto simp: represents_plug wf_z_def is_on_left_def deref_def)

lemma rep_sibling:
  "represents s (plug (f # ctx) (Node l n k c r)) \<Longrightarrow>
   sibling (heap s) (Some n) = Some (ptr (sib f))"
  by (cases f) (auto simp: represents_plug wf_z_def sibling_def is_on_left_def deref_def)

lemma heap_tree_red:
  "heap_tree h par u \<Longrightarrow>
   (if ptr u \<noteq> None then deref h (ptr u) \<bind> (\<lambda>u. Some (color u = red)) else Some False)
     = Some (color_of u = red)"
  by (cases u) (auto simp: deref_def)

lemma rep_red_child:
  "represents s (plug ctx (Node l a k c r)) \<Longrightarrow>
   red_child (heap s) (Some a) = Some (color_of l = red \<or> color_of r = red)"
  by (cases l; cases r) (auto simp: represents_plug red_child_def deref_def)

text \<open>
  \<^verbatim>\<open>fix_double_black\<close> returns; it leaves the subtree at its argument as it was and
  changes the path above it as \<open>a_fix_double_black\<close> does; it is entered on the nodes
  \<open>fix_double_black_calls\<close> lists.
\<close>

lemma fix_double_black_refines:
  "repc s (plug ctx (Node l n k c r)) cs \<Longrightarrow>
   \<exists>s'. fix_double_black (Some n) s = Some s'
      \<and> repc s' (plug (a_fix_double_black ctx) (Node l n k c r))
          (cs @ map (\<lambda>a. Fix_double_black (Some a)) (fix_double_black_calls ctx n))"
proof (induction ctx arbitrary: s cs l n k c r rule: a_fix_double_black.induct)
  case 1
  then have "root s = Some n" using rep_root[of s "[]" l n k c r] by (simp add: repc_def)
  with 1 show ?case
    by (subst fix_double_black.simps) (simp add: Let_def repc_def)
next
  case (2 p kp cp ctx)
  let ?s0 = "s\<lparr>calls := calls s @ [Fix_double_black (Some n)]\<rparr>"
  let ?cs0 = "cs @ [Fix_double_black (Some n)]"
  note pre = "2.prems"
  from pre have R0: "repc ?s0 (plug ctx (Node (Node l n k c r) p kp cp Leaf)) ?cs0"
    by (simp add: repc_def)
  from pre have rep: "represents s (plug ((LeftOf p kp cp Leaf) # ctx) (Node l n k c r))"
    by (simp add: repc_def)
  from rep_root[OF rep] have rt: "root s \<noteq> Some n" by simp
  from rep_sibling[OF rep] have sb: "sibling (heap s) (Some n) = Some None" by simp
  from rep_cell[OF rep] have celln:
    "heap s n = Some \<lparr>key = k, parent = Some p, left = ptr l, right = ptr r, color = c\<rparr>"
    by simp
  from "2.IH"[OF R0] obtain s' where
    "fix_double_black (Some p) ?s0 = Some s'"
    "repc s' (plug (a_fix_double_black ctx) (Node (Node l n k c r) p kp cp Leaf))
       (?cs0 @ map (\<lambda>a. Fix_double_black (Some a)) (fix_double_black_calls ctx p))"
    by blast
  with rt sb show ?case
    by (subst fix_double_black.simps) (simp add: Let_def celln)
next
  case (3 p kp cp ctx)
  let ?s0 = "s\<lparr>calls := calls s @ [Fix_double_black (Some n)]\<rparr>"
  let ?cs0 = "cs @ [Fix_double_black (Some n)]"
  note pre = "3.prems"
  from pre have R0: "repc ?s0 (plug ctx (Node Leaf p kp cp (Node l n k c r))) ?cs0"
    by (simp add: repc_def)
  from pre have rep: "represents s (plug ((RightOf Leaf p kp cp) # ctx) (Node l n k c r))"
    by (simp add: repc_def)
  from rep_root[OF rep] have rt: "root s \<noteq> Some n" by simp
  from rep_sibling[OF rep] have sb: "sibling (heap s) (Some n) = Some None" by simp
  from rep_cell[OF rep] have celln:
    "heap s n = Some \<lparr>key = k, parent = Some p, left = ptr l, right = ptr r, color = c\<rparr>"
    by simp
  from "3.IH"[OF R0] obtain s' where
    "fix_double_black (Some p) ?s0 = Some s'"
    "repc s' (plug (a_fix_double_black ctx) (Node Leaf p kp cp (Node l n k c r)))
       (?cs0 @ map (\<lambda>a. Fix_double_black (Some a)) (fix_double_black_calls ctx p))"
    by blast
  with rt sb show ?case
    by (subst fix_double_black.simps) (simp add: Let_def celln)
next
  case (4 p kp cp sl sa sk sc sr ctx)
  let ?s0 = "s\<lparr>calls := calls s @ [Fix_double_black (Some n)]\<rparr>"
  let ?cs0 = "cs @ [Fix_double_black (Some n)]"
  note pre = "4.prems"
  from pre have R0: "repc ?s0 (plug ctx (Node (Node l n k c r) p kp cp (Node sl sa sk sc sr))) ?cs0"
    by (simp add: repc_def)
  from pre have rep: "represents s (plug ((LeftOf p kp cp (Node sl sa sk sc sr)) # ctx) (Node l n k c r))"
    by (simp add: repc_def)
  from rep_root[OF rep] have rt: "root s \<noteq> Some n" by simp
  from rep_sibling[OF rep] have sb: "sibling (heap s) (Some n) = Some (Some sa)" by simp
  from rep have celln:
    "heap s n = Some \<lparr>key = k, parent = Some p, left = ptr l, right = ptr r, color = c\<rparr>"
    and cells:
    "heap s sa = Some \<lparr>key = sk, parent = Some p, left = ptr sl, right = ptr sr, color = sc\<rparr>"
    and cellp:
    "heap s p = Some \<lparr>key = kp, parent = par_of ctx, left = Some n, right = Some sa, color = cp\<rparr>"
    and hsl: "heap_tree (heap s) (Some sa) sl" and hsr: "heap_tree (heap s) (Some sa) sr"
    by (simp_all add: represents_plug)
  from rep have repS: "represents s (plug ((RightOf (Node l n k c r) p kp cp) # ctx) (Node sl sa sk sc sr))" by simp
  from rep_is_on_left[OF repS] have io: "is_on_left (heap s) (Some sa) = Some False" by simp
  from rep_red_child[OF repS]
  have rc: "red_child (heap s) (Some sa) = Some (color_of sl = red \<or> color_of sr = red)" .
  show ?case
  proof (cases sc)
    case False
    from repc_set_color[OF R0, of red] obtain s1 where
      w1: "wr (Some p) (\<lambda>x. x\<lparr>color := red\<rparr>) ?s0 = Some s1" and
      R1: "repc s1 (plug ctx (Node (Node l n k c r) p kp red (Node sl sa sk sc sr))) ?cs0" by blast
    from repc_set_color[of s1 "(RightOf (Node l n k c r) p kp red) # ctx" sl sa sk sc sr ?cs0 black] R1
    obtain s2 where
      w2: "wr (Some sa) (\<lambda>x. x\<lparr>color := black\<rparr>) s1 = Some s2" and
      R2: "repc s2 (plug ctx (Node (Node l n k c r) p kp red (Node sl sa sk black sr))) ?cs0" by auto
    from R2 have "represents s2 (plug ((RightOf (Node l n k c r) p kp red) # ctx) (Node sl sa sk black sr))"
      by (simp add: repc_def)
    from rep_is_on_left[OF this] have io2: "is_on_left (heap s2) (Some sa) = Some False"
      by simp
    from repc_rotate_left[OF R2] obtain s3 where
      w3: "rotate_left (Some p) s2 = Some s3" and
      R3: "repc s3 (plug ctx (Node (Node (Node l n k c r) p kp red sl) sa sk black sr)) ?cs0" by blast
    from R3 have "repc s3 (plug (LeftOf p kp red sl # LeftOf sa sk black sr # ctx) (Node l n k c r)) ?cs0"
      by simp
    from "4.IH"(1)[OF _ this] False obtain s' where
      r: "fix_double_black (Some n) s3 = Some s'"
      "repc s' (plug (a_fix_double_black (LeftOf p kp red sl # LeftOf sa sk black sr # ctx)) (Node l n k c r))
         (?cs0 @ map (\<lambda>a. Fix_double_black (Some a))
            (fix_double_black_calls (LeftOf p kp red sl # LeftOf sa sk black sr # ctx) n))"
      by blast
    with False rt sb w1 w2 io2 w3 show ?thesis
      by (subst fix_double_black.simps) (simp add: Let_def celln cells)
  next
    case True
    show ?thesis
    proof (cases "color_of sl = red \<or> color_of sr = red")
      case nrc: False
      from repc_set_color[of ?s0 "(RightOf (Node l n k c r) p kp cp) # ctx" sl sa sk sc sr ?cs0 red] R0
      obtain s1 where
        w1: "wr (Some sa) (\<lambda>x. x\<lparr>color := red\<rparr>) ?s0 = Some s1" and
        R1: "repc s1 (plug ctx (Node (Node l n k c r) p kp cp (Node sl sa sk red sr))) ?cs0" by auto
      from repc_cell[OF R1] have cellp1:
        "heap s1 p = Some \<lparr>key = kp, parent = par_of ctx, left = Some n,
           right = Some sa, color = cp\<rparr>" by simp
      show ?thesis
      proof (cases cp)
        case False
        from repc_set_color[OF R1, of black] obtain s2 where
          w2: "wr (Some p) (\<lambda>x. x\<lparr>color := black\<rparr>) s1 = Some s2" and
          R2: "repc s2 (plug ctx (Node (Node l n k c r) p kp black (Node sl sa sk red sr))) ?cs0" by blast
        with False True nrc rt sb rc w1 cellp1 show ?thesis
          by (subst fix_double_black.simps) (simp add: Let_def celln cells)
      next
        case cpb: True
        from "4.IH"(2)[OF _ _ _ R1] True nrc cpb obtain s' where
          r: "fix_double_black (Some p) s1 = Some s'"
          "repc s' (plug (a_fix_double_black ctx) (Node (Node l n k c r) p kp cp (Node sl sa sk red sr)))
             (?cs0 @ map (\<lambda>a. Fix_double_black (Some a)) (fix_double_black_calls ctx p))"
          by blast
        with True nrc cpb rt sb rc w1 cellp1 show ?thesis
          by (subst fix_double_black.simps) (simp add: Let_def celln cells)
      qed
    next
      case hrc: True
      show ?thesis
      proof (cases "color_of sl = red")
        case slr: True
        then obtain sll sla slk slr where sl: "sl = Node sll sla slk red slr"
          by (cases sl) auto
        from hsl have cellsl: "heap s sla = Some \<lparr>key = slk, parent = Some sa, left = ptr sll,
            right = ptr slr, color = red\<rparr>" by (simp add: sl)
        from repc_set_color[of ?s0 "LeftOf sa sk sc sr # (RightOf (Node l n k c r) p kp cp) # ctx"
            sll sla slk red slr ?cs0 cp] R0
        obtain s1 where
          w1: "wr (Some sla) (\<lambda>x. x\<lparr>color := cp\<rparr>) ?s0 = Some s1" and
          R1: "repc s1 (plug ctx (Node (Node l n k c r) p kp cp (Node (Node sll sla slk cp slr) sa sk sc sr))) ?cs0"
          by (auto simp: sl)
        from repc_rotate_right[of s1 "(RightOf (Node l n k c r) p kp cp) # ctx" sll sla slk cp slr sa sk sc sr ?cs0] R1
        obtain s2 where
          w2: "rotate_right (Some sa) s1 = Some s2" and
          R2: "repc s2 (plug ctx (Node (Node l n k c r) p kp cp (Node sll sla slk cp (Node slr sa sk sc sr)))) ?cs0"
          by auto
        from repc_rotate_left[OF R2] obtain s3 where
          w3: "rotate_left (Some p) s2 = Some s3" and
          R3: "repc s3 (plug ctx (Node (Node (Node l n k c r) p kp cp sll) sla slk cp (Node slr sa sk sc sr)))
                 ?cs0" by blast
        from repc_set_color[of s3 "LeftOf sla slk cp (Node slr sa sk sc sr) # ctx"
            "Node l n k c r" p kp cp sll ?cs0 black] R3
        obtain s4 where
          w4: "wr (Some p) (\<lambda>x. x\<lparr>color := black\<rparr>) s3 = Some s4" and
          R4: "repc s4 (plug ctx (Node (Node (Node l n k c r) p kp black sll) sla slk cp
                 (Node slr sa sk sc sr))) ?cs0" by auto
        with True rt sb rc io w1 w2 w3 show ?thesis
          by (subst fix_double_black.simps) (simp add: Let_def celln cells cellp cellsl sl)
      next
        case slb: False
        with hrc obtain srl sra srk srr where sr: "sr = Node srl sra srk red srr"
          by (cases sr) auto
        from hsr have cellsr: "heap s sra = Some \<lparr>key = srk, parent = Some sa, left = ptr srl,
            right = ptr srr, color = red\<rparr>" by (simp add: sr)
        from uncle_red[of ?s0 "Some sa" sl] hsl slb
        have lred: "(if ptr sl \<noteq> None then rd ?s0 (ptr sl) \<bind> (\<lambda>u. Some (color u = red))
            else Some False) = Some False" by simp
        from repc_set_color[of ?s0 "RightOf sl sa sk sc # (RightOf (Node l n k c r) p kp cp) # ctx"
            srl sra srk red srr ?cs0 sc] R0
        obtain s1 where
          w1: "wr (Some sra) (\<lambda>x. x\<lparr>color := sc\<rparr>) ?s0 = Some s1" and
          R1: "repc s1 (plug ctx (Node (Node l n k c r) p kp cp (Node sl sa sk sc (Node srl sra srk sc srr)))) ?cs0"
          by (auto simp: sr)
        from repc_cell[OF R1] have cellp1:
          "heap s1 p = Some \<lparr>key = kp, parent = par_of ctx, left = Some n, right = Some sa,
             color = cp\<rparr>" by simp
        from repc_set_color[of s1 "(RightOf (Node l n k c r) p kp cp) # ctx" sl sa sk sc "Node srl sra srk sc srr"
            ?cs0 cp] R1
        obtain s2 where
          w2: "wr (Some sa) (\<lambda>x. x\<lparr>color := cp\<rparr>) s1 = Some s2" and
          R2: "repc s2 (plug ctx (Node (Node l n k c r) p kp cp (Node sl sa sk cp (Node srl sra srk sc srr)))) ?cs0"
          by auto
        from repc_rotate_left[OF R2] obtain s3 where
          w3: "rotate_left (Some p) s2 = Some s3" and
          R3: "repc s3 (plug ctx (Node (Node (Node l n k c r) p kp cp sl) sa sk cp (Node srl sra srk sc srr)))
                 ?cs0" by blast
        from repc_set_color[of s3 "LeftOf sa sk cp (Node srl sra srk sc srr) # ctx"
            "Node l n k c r" p kp cp sl ?cs0 black] R3
        obtain s4 where
          w4: "wr (Some p) (\<lambda>x. x\<lparr>color := black\<rparr>) s3 = Some s4" and
          R4: "repc s4 (plug ctx (Node (Node (Node l n k c r) p kp black sl) sa sk cp
                 (Node srl sra srk sc srr))) ?cs0" by auto
        with True slb rt sb rc io lred w1 cellp1 w2 w3 show ?thesis
          by (subst fix_double_black.simps, cases sl)
             (simp_all add: Let_def celln cells cellp cellsr sr)
      qed
    qed
  qed
next
  case (5 sl sa sk sc sr p kp cp ctx)
  let ?s0 = "s\<lparr>calls := calls s @ [Fix_double_black (Some n)]\<rparr>"
  let ?cs0 = "cs @ [Fix_double_black (Some n)]"
  note pre = "5.prems"
  from pre have R0: "repc ?s0 (plug ctx (Node (Node sl sa sk sc sr) p kp cp (Node l n k c r))) ?cs0"
    by (simp add: repc_def)
  from pre have rep: "represents s (plug ((RightOf (Node sl sa sk sc sr) p kp cp) # ctx) (Node l n k c r))"
    by (simp add: repc_def)
  from rep_root[OF rep] have rt: "root s \<noteq> Some n" by simp
  from rep_sibling[OF rep] have sb: "sibling (heap s) (Some n) = Some (Some sa)" by simp
  from rep have celln:
    "heap s n = Some \<lparr>key = k, parent = Some p, left = ptr l, right = ptr r, color = c\<rparr>"
    and cells:
    "heap s sa = Some \<lparr>key = sk, parent = Some p, left = ptr sl, right = ptr sr, color = sc\<rparr>"
    and cellp:
    "heap s p = Some \<lparr>key = kp, parent = par_of ctx, left = Some sa, right = Some n, color = cp\<rparr>"
    and hsl: "heap_tree (heap s) (Some sa) sl" and hsr: "heap_tree (heap s) (Some sa) sr"
    by (simp_all add: represents_plug)
  from rep have repS: "represents s (plug ((LeftOf p kp cp (Node l n k c r)) # ctx) (Node sl sa sk sc sr))" by simp
  from rep_is_on_left[OF repS] have io: "is_on_left (heap s) (Some sa) = Some True" by simp
  from rep_red_child[OF repS]
  have rc: "red_child (heap s) (Some sa) = Some (color_of sl = red \<or> color_of sr = red)" .
  show ?case
  proof (cases sc)
    case False
    from repc_set_color[OF R0, of red] obtain s1 where
      w1: "wr (Some p) (\<lambda>x. x\<lparr>color := red\<rparr>) ?s0 = Some s1" and
      R1: "repc s1 (plug ctx (Node (Node sl sa sk sc sr) p kp red (Node l n k c r))) ?cs0" by blast
    from repc_set_color[of s1 "(LeftOf p kp red (Node l n k c r)) # ctx" sl sa sk sc sr ?cs0 black] R1
    obtain s2 where
      w2: "wr (Some sa) (\<lambda>x. x\<lparr>color := black\<rparr>) s1 = Some s2" and
      R2: "repc s2 (plug ctx (Node (Node sl sa sk black sr) p kp red (Node l n k c r))) ?cs0" by auto
    from R2 have "represents s2 (plug ((LeftOf p kp red (Node l n k c r)) # ctx) (Node sl sa sk black sr))"
      by (simp add: repc_def)
    from rep_is_on_left[OF this] have io2: "is_on_left (heap s2) (Some sa) = Some True"
      by simp
    from repc_rotate_right[OF R2] obtain s3 where
      w3: "rotate_right (Some p) s2 = Some s3" and
      R3: "repc s3 (plug ctx (Node sl sa sk black (Node sr p kp red (Node l n k c r)))) ?cs0" by blast
    from R3 have "repc s3 (plug (RightOf sr p kp red # RightOf sl sa sk black # ctx) (Node l n k c r)) ?cs0"
      by simp
    from "5.IH"(1)[OF _ this] False obtain s' where
      r: "fix_double_black (Some n) s3 = Some s'"
      "repc s' (plug (a_fix_double_black (RightOf sr p kp red # RightOf sl sa sk black # ctx)) (Node l n k c r))
         (?cs0 @ map (\<lambda>a. Fix_double_black (Some a))
            (fix_double_black_calls (RightOf sr p kp red # RightOf sl sa sk black # ctx) n))"
      by blast
    with False rt sb w1 w2 io2 w3 show ?thesis
      by (subst fix_double_black.simps) (simp add: Let_def celln cells)
  next
    case True
    show ?thesis
    proof (cases "color_of sl = red \<or> color_of sr = red")
      case nrc: False
      from repc_set_color[of ?s0 "(LeftOf p kp cp (Node l n k c r)) # ctx" sl sa sk sc sr ?cs0 red] R0
      obtain s1 where
        w1: "wr (Some sa) (\<lambda>x. x\<lparr>color := red\<rparr>) ?s0 = Some s1" and
        R1: "repc s1 (plug ctx (Node (Node sl sa sk red sr) p kp cp (Node l n k c r))) ?cs0" by auto
      from repc_cell[OF R1] have cellp1:
        "heap s1 p = Some \<lparr>key = kp, parent = par_of ctx, left = Some sa,
           right = Some n, color = cp\<rparr>" by simp
      show ?thesis
      proof (cases cp)
        case False
        from repc_set_color[OF R1, of black] obtain s2 where
          w2: "wr (Some p) (\<lambda>x. x\<lparr>color := black\<rparr>) s1 = Some s2" and
          R2: "repc s2 (plug ctx (Node (Node sl sa sk red sr) p kp black (Node l n k c r))) ?cs0" by blast
        with False True nrc rt sb rc w1 cellp1 show ?thesis
          by (subst fix_double_black.simps) (simp add: Let_def celln cells)
      next
        case cpb: True
        from "5.IH"(2)[OF _ _ _ R1] True nrc cpb obtain s' where
          r: "fix_double_black (Some p) s1 = Some s'"
          "repc s' (plug (a_fix_double_black ctx) (Node (Node sl sa sk red sr) p kp cp (Node l n k c r)))
             (?cs0 @ map (\<lambda>a. Fix_double_black (Some a)) (fix_double_black_calls ctx p))"
          by blast
        with True nrc cpb rt sb rc w1 cellp1 show ?thesis
          by (subst fix_double_black.simps) (simp add: Let_def celln cells)
      qed
    next
      case hrc: True
      show ?thesis
      proof (cases "color_of sl = red")
        case slr: True
        then obtain sll sla slk slr where sl: "sl = Node sll sla slk red slr"
          by (cases sl) auto
        from hsl have cellsl: "heap s sla = Some \<lparr>key = slk, parent = Some sa, left = ptr sll,
            right = ptr slr, color = red\<rparr>" by (simp add: sl)
        from repc_set_color[of ?s0 "LeftOf sa sk sc sr # (LeftOf p kp cp (Node l n k c r)) # ctx"
            sll sla slk red slr ?cs0 sc] R0
        obtain s1 where
          w1: "wr (Some sla) (\<lambda>x. x\<lparr>color := sc\<rparr>) ?s0 = Some s1" and
          R1: "repc s1 (plug ctx (Node (Node (Node sll sla slk sc slr) sa sk sc sr) p kp cp (Node l n k c r))) ?cs0"
          by (auto simp: sl)
        from repc_cell[OF R1] have cellp1:
          "heap s1 p = Some \<lparr>key = kp, parent = par_of ctx, left = Some sa, right = Some n,
             color = cp\<rparr>" by simp
        from repc_set_color[of s1 "(LeftOf p kp cp (Node l n k c r)) # ctx" "Node sll sla slk sc slr" sa sk sc sr
            ?cs0 cp] R1
        obtain s2 where
          w2: "wr (Some sa) (\<lambda>x. x\<lparr>color := cp\<rparr>) s1 = Some s2" and
          R2: "repc s2 (plug ctx (Node (Node (Node sll sla slk sc slr) sa sk cp sr) p kp cp (Node l n k c r))) ?cs0"
          by auto
        from repc_rotate_right[OF R2] obtain s3 where
          w3: "rotate_right (Some p) s2 = Some s3" and
          R3: "repc s3 (plug ctx (Node (Node sll sla slk sc slr) sa sk cp (Node sr p kp cp (Node l n k c r))))
                 ?cs0" by blast
        from repc_set_color[of s3 "RightOf (Node sll sla slk sc slr) sa sk cp # ctx"
            sr p kp cp "Node l n k c r" ?cs0 black] R3
        obtain s4 where
          w4: "wr (Some p) (\<lambda>x. x\<lparr>color := black\<rparr>) s3 = Some s4" and
          R4: "repc s4 (plug ctx (Node (Node sll sla slk sc slr) sa sk cp
                 (Node sr p kp black (Node l n k c r)))) ?cs0" by auto
        with True rt sb rc io w1 cellp1 w2 w3 show ?thesis
          by (subst fix_double_black.simps) (simp add: Let_def celln cells cellp cellsl sl)
      next
        case slb: False
        with hrc obtain srl sra srk srr where sr: "sr = Node srl sra srk red srr"
          by (cases sr) auto
        from hsr have cellsr: "heap s sra = Some \<lparr>key = srk, parent = Some sa, left = ptr srl,
            right = ptr srr, color = red\<rparr>" by (simp add: sr)
        from uncle_red[of ?s0 "Some sa" sl] hsl slb
        have lred: "(if ptr sl \<noteq> None then rd ?s0 (ptr sl) \<bind> (\<lambda>u. Some (color u = red))
            else Some False) = Some False" by simp
        from repc_set_color[of ?s0 "RightOf sl sa sk sc # (LeftOf p kp cp (Node l n k c r)) # ctx"
            srl sra srk red srr ?cs0 cp] R0
        obtain s1 where
          w1: "wr (Some sra) (\<lambda>x. x\<lparr>color := cp\<rparr>) ?s0 = Some s1" and
          R1: "repc s1 (plug ctx (Node (Node sl sa sk sc (Node srl sra srk cp srr)) p kp cp (Node l n k c r))) ?cs0"
          by (auto simp: sr)
        from repc_rotate_left[of s1 "(LeftOf p kp cp (Node l n k c r)) # ctx" sl sa sk sc srl sra srk cp srr ?cs0] R1
        obtain s2 where
          w2: "rotate_left (Some sa) s1 = Some s2" and
          R2: "repc s2 (plug ctx (Node (Node (Node sl sa sk sc srl) sra srk cp srr) p kp cp (Node l n k c r))) ?cs0"
          by auto
        from repc_rotate_right[OF R2] obtain s3 where
          w3: "rotate_right (Some p) s2 = Some s3" and
          R3: "repc s3 (plug ctx (Node (Node sl sa sk sc srl) sra srk cp (Node srr p kp cp (Node l n k c r))))
                 ?cs0" by blast
        from repc_set_color[of s3 "RightOf (Node sl sa sk sc srl) sra srk cp # ctx"
            srr p kp cp "Node l n k c r" ?cs0 black] R3
        obtain s4 where
          w4: "wr (Some p) (\<lambda>x. x\<lparr>color := black\<rparr>) s3 = Some s4" and
          R4: "repc s4 (plug ctx (Node (Node sl sa sk sc srl) sra srk cp
                 (Node srr p kp black (Node l n k c r)))) ?cs0" by auto
        with True slb rt sb rc io lred w1 w2 w3 show ?thesis
          by (subst fix_double_black.simps, cases sl)
             (simp_all add: Let_def celln cells cellp cellsr sr)
      qed
    qed
  qed
qed

subsection \<open>The steps of \<^verbatim>\<open>delete_helper\<close>\<close>

lemma min_node_min_tree:
  "heap_tree h par r \<Longrightarrow> r \<noteq> Leaf \<Longrightarrow> min_node h (ptr r) = Some (ptr (min_tree r))"
proof (induction r arbitrary: par)
  case Leaf
  then show ?case by simp
next
  case (Node l a k c rr)
  show ?case
  proof (cases "l = Leaf")
    case True
    with Node.prems show ?thesis
      by (subst min_node.simps) (simp add: deref_def)
  next
    case False
    with Node.prems have "heap_tree h (Some a) l" by simp
    from Node.IH(1)[OF this False] Node.prems False show ?thesis
      by (subst min_node.simps) (cases l; simp add: deref_def)
  qed
qed

lemma rep_replace:
  assumes "represents s (plug ctx (Node l n k c r))"
  shows "replace (heap s) (Some n)
     = Some (if l \<noteq> Leaf \<and> r \<noteq> Leaf then ptr (min_tree r)
             else if l = Leaf \<and> r = Leaf then None
             else if l \<noteq> Leaf then ptr l else ptr r)"
proof -
  from assms have c: "heap s n
      = Some \<lparr>key = k, parent = par_of ctx, left = ptr l, right = ptr r, color = c\<rparr>"
    and h: "heap_tree (heap s) (Some n) r"
    by (simp_all add: represents_plug)
  have p: "(ptr t = None) = (t = Leaf)" for t by (cases t) auto
  show ?thesis
  proof (cases "l \<noteq> Leaf \<and> r \<noteq> Leaf")
    case True
    with min_node_min_tree[OF h] c show ?thesis
      by (simp add: replace_def deref_def p)
  next
    case False
    with c show ?thesis by (auto simp: replace_def deref_def p)
  qed
qed

lemma free_Some: "free (Some a) s = s\<lparr>heap := (heap s)(a := None)\<rparr>"
  by (simp add: free_def)

lemma free_calls [simp]: "calls (free p s) = calls s"
  by (cases p) (simp_all add: free_def)

text \<open>A node without children is taken out of the tree and destroyed.\<close>

lemma rep_unlink:
  assumes "represents s (plug (f # ctx) (Node Leaf n k c Leaf))"
  shows "\<exists>s1. (if on_left f then wr (Some (frame_addr f)) (\<lambda>x. x\<lparr>left := None\<rparr>) s
               else wr (Some (frame_addr f)) (\<lambda>x. x\<lparr>right := None\<rparr>) s) = Some s1
           \<and> represents (free (Some n) s1) (plug (f # ctx) Leaf)"
proof (cases f)
  case (LeftOf a ka ca ra)
  from assms have "wf_z (f # ctx) (Node Leaf n k c Leaf) (fresh s)"
    unfolding represents_plug by simp
  then have u: "a \<noteq> n" "n \<notin> addrs ra" "n \<notin> addrs_ctx ctx" "a \<notin> addrs ra" "a \<notin> addrs_ctx ctx"
    and w: "wf_z (f # ctx) Leaf (fresh s)"
    by (auto simp: wf_z_def LeftOf)
  from assms u w show ?thesis
    unfolding represents_plug
    by (simp add: LeftOf wr_Some free_Some heap_tree_frame heap_ctx_frame)
next
  case (RightOf la a ka ca)
  from assms have "wf_z (f # ctx) (Node Leaf n k c Leaf) (fresh s)"
    unfolding represents_plug by simp
  then have u: "a \<noteq> n" "n \<notin> addrs la" "n \<notin> addrs_ctx ctx" "a \<notin> addrs la" "a \<notin> addrs_ctx ctx"
    and w: "wf_z (f # ctx) Leaf (fresh s)"
    by (auto simp: wf_z_def RightOf)
  from assms u w show ?thesis
    unfolding represents_plug
    by (simp add: RightOf wr_Some free_Some heap_tree_frame heap_ctx_frame)
qed


text \<open>The sibling of a node is coloured, when there is one.\<close>

lemma rep_paint_sib:
  assumes "represents s (plug (f # ctx) t)"
  shows "\<exists>s1. (if ptr (sib f) \<noteq> None then wr (ptr (sib f)) (\<lambda>x. x\<lparr>color := c'\<rparr>) s
               else Some s) = Some s1
           \<and> represents s1 (plug (paint_sib c' f # ctx) t)"
proof (cases f)
  case (LeftOf a ka ca ra)
  show ?thesis
  proof (cases ra)
    case Leaf
    with assms LeftOf show ?thesis by simp
  next
    case (Node rl b kb cb rr)
    from assms have "represents s (plug (RightOf t a ka ca # ctx) (Node rl b kb cb rr))"
      by (simp add: LeftOf Node)
    from rep_set_color[OF this, of c'] show ?thesis by (simp add: LeftOf Node)
  qed
next
  case (RightOf la a ka ca)
  show ?thesis
  proof (cases la)
    case Leaf
    with assms RightOf show ?thesis by simp
  next
    case (Node ll b kb cb lr)
    from assms have "represents s (plug (LeftOf a ka ca t # ctx) (Node ll b kb cb lr))"
      by (simp add: RightOf Node)
    from rep_set_color[OF this, of c'] show ?thesis by (simp add: RightOf Node)
  qed
qed

lemma paint_sib_frame [simp]:
  "frame_addr (paint_sib c f) = frame_addr f" "on_left (paint_sib c f) = on_left f"
  by (cases f; simp)+

text \<open>
  A node with one child \<open>m\<close> that is not the root: \<open>m\<close> takes its place under the parent,
  and the node is destroyed.
\<close>

lemma rep_splice:
  assumes "represents s (plug (f # ctx) (Node l n k c r))"
    and "(l = Node ml ma mk mc mr \<and> r = Leaf) \<or> (l = Leaf \<and> r = Node ml ma mk mc mr)"
  shows "\<exists>s1 s2. (if on_left f then wr (Some (frame_addr f)) (\<lambda>x. x\<lparr>left := Some ma\<rparr>) s
                  else wr (Some (frame_addr f)) (\<lambda>x. x\<lparr>right := Some ma\<rparr>) s) = Some s1
           \<and> wr (Some ma) (\<lambda>x. x\<lparr>parent := Some (frame_addr f)\<rparr>) (free (Some n) s1) = Some s2
           \<and> represents s2 (plug (f # ctx) (Node ml ma mk mc mr))"
proof (cases f)
  case (LeftOf a ka ca ra)
  from assms have wf: "wf_z (f # ctx) (Node l n k c r) (fresh s)"
    unfolding represents_plug by simp
  with assms(2) have u: "a \<noteq> n" "a \<noteq> ma" "n \<noteq> ma" "n \<notin> addrs ra" "n \<notin> addrs_ctx ctx"
    "a \<notin> addrs ra" "a \<notin> addrs_ctx ctx" "ma \<notin> addrs ra" "ma \<notin> addrs_ctx ctx"
    "n \<notin> addrs ml" "n \<notin> addrs mr" "ma \<notin> addrs ml" "ma \<notin> addrs mr"
    "a \<notin> addrs ml" "a \<notin> addrs mr"
    and w: "wf_z (f # ctx) (Node ml ma mk mc mr) (fresh s)"
    by (auto simp: wf_z_def LeftOf)
  from assms(2) show ?thesis
  proof
    assume "l = Node ml ma mk mc mr \<and> r = Leaf"
    with assms(1) u w show ?thesis
      unfolding represents_plug
      by (simp add: LeftOf wr_Some free_Some heap_tree_frame heap_ctx_frame)
  next
    assume "l = Leaf \<and> r = Node ml ma mk mc mr"
    with assms(1) u w show ?thesis
      unfolding represents_plug
      by (simp add: LeftOf wr_Some free_Some heap_tree_frame heap_ctx_frame)
  qed
next
  case (RightOf la a ka ca)
  from assms have wf: "wf_z (f # ctx) (Node l n k c r) (fresh s)"
    unfolding represents_plug by simp
  with assms(2) have u: "a \<noteq> n" "a \<noteq> ma" "n \<noteq> ma" "n \<notin> addrs la" "n \<notin> addrs_ctx ctx"
    "a \<notin> addrs la" "a \<notin> addrs_ctx ctx" "ma \<notin> addrs la" "ma \<notin> addrs_ctx ctx"
    "n \<notin> addrs ml" "n \<notin> addrs mr" "ma \<notin> addrs ml" "ma \<notin> addrs mr"
    "a \<notin> addrs ml" "a \<notin> addrs mr"
    and w: "wf_z (f # ctx) (Node ml ma mk mc mr) (fresh s)"
    by (auto simp: wf_z_def RightOf)
  from assms(2) show ?thesis
  proof
    assume "l = Node ml ma mk mc mr \<and> r = Leaf"
    with assms(1) u w show ?thesis
      unfolding represents_plug
      by (simp add: RightOf wr_Some free_Some heap_tree_frame heap_ctx_frame)
  next
    assume "l = Leaf \<and> r = Node ml ma mk mc mr"
    with assms(1) u w show ?thesis
      unfolding represents_plug
      by (simp add: RightOf wr_Some free_Some heap_tree_frame heap_ctx_frame)
  qed
qed

text \<open>
  The root with one child \<open>m\<close>: the root takes the key of \<open>m\<close> and loses both links, and
  \<open>m\<close> is destroyed.
\<close>

lemma rep_root_child:
  assumes "represents s (Node l n k c r)"
    and "(l = Node ml ma mk mc mr \<and> r = Leaf) \<or> (l = Leaf \<and> r = Node ml ma mk mc mr)"
  shows "\<exists>s1 s2 s3. wr (Some n) (\<lambda>x. x\<lparr>key := mk\<rparr>) s = Some s1
           \<and> wr (Some n) (\<lambda>x. x\<lparr>right := None\<rparr>) s1 = Some s2
           \<and> wr (Some n) (\<lambda>x. x\<lparr>left := None\<rparr>) s2 = Some s3
           \<and> represents (free (Some ma) s3) (Node Leaf n mk c Leaf)"
  using assms(2)
proof
  assume "l = Node ml ma mk mc mr \<and> r = Leaf"
  with assms(1) show ?thesis
    by (simp add: represents_def wr_Some free_Some)
next
  assume "l = Leaf \<and> r = Node ml ma mk mc mr"
  with assms(1) show ?thesis
    by (simp add: represents_def wr_Some free_Some)
qed

lemma wr_upd:
  "wr p f s = Some s' \<Longrightarrow> upd p f (heap s) = Some (heap s') \<and> s' = s\<lparr>heap := heap s'\<rparr>"
  by (auto simp: wr_def split: option.splits)

lemma min_path_append: "min_path r ctx = min_path r [] @ ctx"
proof (induction r arbitrary: ctx)
  case Leaf
  then show ?case by simp
next
  case (Node l a k c r)
  from Node.IH(1)[of "LeftOf a k c r # ctx"] Node.IH(1)[of "[LeftOf a k c r]"]
  show ?case by simp
qed

lemma plug_append: "plug (a @ b) t = plug b (plug a t)"
  by (induction a arbitrary: t) auto

text \<open>
  \<^verbatim>\<open>swap_keys(m, n)\<close> for the leftmost node \<open>m\<close> of the right subtree of \<open>n\<close>.
\<close>

lemma rep_swap_keys:
  assumes "represents s (plug ctx (Node l n k c r))" and "r \<noteq> Leaf"
  shows "\<exists>h. swap_keys (ptr (min_tree r)) (Some n) (heap s) = Some h
           \<and> represents (s\<lparr>heap := h\<rparr>)
               (plug (min_path r (RightOf l n (key_of (min_tree r)) c # ctx))
                  (set_key k (min_tree r)))"
proof -
  from assms(2) obtain ma mk mc mr where mt: "min_tree r = Node Leaf ma mk mc mr"
    using min_tree_Node by blast
  let ?p = "min_path r []"
  have mp: "min_path r (f # ctx) = ?p @ f # ctx" for f
    using min_path_append[of r "f # ctx"] .
  have "plug (?p @ RightOf l n k c # ctx) (Node Leaf ma mk mc mr) = plug ctx (Node l n k c r)"
    using plug_min_path[of r "RightOf l n k c # ctx"] by (simp add: mp mt)
  with assms(1) have R0: "represents s (plug (?p @ RightOf l n k c # ctx) (Node Leaf ma mk mc mr))"
    by simp
  from rep_cell[OF R0] have cm: "heap s ma = Some \<lparr>key = mk,
      parent = par_of (?p @ RightOf l n k c # ctx), left = None, right = ptr mr, color = mc\<rparr>"
    by simp
  from rep_cell[OF assms(1)] have cn: "heap s n = Some \<lparr>key = k, parent = par_of ctx,
      left = ptr l, right = ptr r, color = c\<rparr>" .
  from rep_set_key[OF R0, of k] obtain s1 where
    w1: "wr (Some ma) (\<lambda>x. x\<lparr>key := k\<rparr>) s = Some s1" and
    R1: "represents s1 (plug (?p @ RightOf l n k c # ctx) (Node Leaf ma k mc mr))" by blast
  from R1 have "represents s1 (plug ctx (Node l n k c (plug ?p (Node Leaf ma k mc mr))))"
    by (simp add: plug_append)
  from rep_set_key[OF this, of mk] obtain s2 where
    w2: "wr (Some n) (\<lambda>x. x\<lparr>key := mk\<rparr>) s1 = Some s2" and
    R2: "represents s2 (plug ctx (Node l n mk c (plug ?p (Node Leaf ma k mc mr))))" by blast
  from R2 have R2': "represents s2 (plug (min_path r (RightOf l n mk c # ctx))
      (Node Leaf ma k mc mr))"
    by (simp add: mp plug_append)
  from wr_upd[OF w1] have u1: "upd (Some ma) (\<lambda>x. x\<lparr>key := k\<rparr>) (heap s) = Some (heap s1)"
    and e1: "s1 = s\<lparr>heap := heap s1\<rparr>" by simp_all
  from wr_upd[OF w2] have u2: "upd (Some n) (\<lambda>x. x\<lparr>key := mk\<rparr>) (heap s1) = Some (heap s2)"
    and e2: "s2 = s1\<lparr>heap := heap s2\<rparr>" by simp_all
  from e1 e2 have "s2 = s\<lparr>heap := heap s2\<rparr>" by (metis RBTree.update_convs(5) RBTree.surjective RBTree.select_convs)
  with R2' have "represents (s\<lparr>heap := heap s2\<rparr>)
      (plug (min_path r (RightOf l n mk c # ctx)) (Node Leaf ma k mc mr))" by simp
  moreover have "swap_keys (Some ma) (Some n) (heap s) = Some (heap s2)"
    using u1 u2 by (simp add: swap_keys_def deref_def cm cn)
  ultimately show ?thesis by (auto simp: mt)
qed


lemma if_wr_calls:
  "(if b then wr p f s else wr q g s) = Some s' \<Longrightarrow> calls s' = calls s"
  by (auto split: if_splits dest: wr_calls)

lemma ptr_None_iff: "(ptr t = None) = (t = Leaf)"
  by (cases t) auto

text \<open>
  \<^verbatim>\<open>delete_helper\<close> on a node with at most one child returns, with the tree that
  \<open>a_delete_simple\<close> gives.
\<close>

lemma delete_simple_refines:
  assumes R: "repc s (plug ctx (Node l n k c r)) cs" and one: "l = Leaf \<or> r = Leaf"
  shows "\<exists>s'. delete_helper (Some n) s = Some s'
      \<and> repc s' (a_delete_simple ctx (Node l n k c r))
          (cs @ Delete_helper (Some n)
             # map (\<lambda>a. Fix_double_black (Some a)) (repair_calls ctx (Node l n k c r)))"
proof -
  let ?s0 = "s\<lparr>calls := calls s @ [Delete_helper (Some n)]\<rparr>"
  let ?cs0 = "cs @ [Delete_helper (Some n)]"
  let ?t = "Node l n k c r"
  from R have rep: "represents s (plug ctx ?t)" by (simp add: repc_def)
  from R have R0: "repc ?s0 (plug ctx ?t) ?cs0" by (simp add: repc_def)
  then have rep0: "represents ?s0 (plug ctx ?t)" by (simp add: repc_def)
  note rp = rep_replace[OF rep]
  note celln = rep_cell[OF rep]
  note rt = rep_root[OF rep]
  show ?thesis
  proof (cases "l = Leaf \<and> r = Leaf")
    case leaf: True
    show ?thesis
    proof (cases ctx)
      case Nil
      have "repc (free (Some n) (?s0\<lparr>root := None\<rparr>)) Leaf ?cs0"
        using R by (simp add: repc_def represents_def free_Some)
      with leaf Nil rt rp show ?thesis
        by (subst delete_helper.simps) (simp add: Let_def celln)
    next
      case (Cons f ctx')
      with rt have rt': "root s \<noteq> Some n" by simp
      show ?thesis
      proof (cases c)
        case True
        from fix_double_black_refines[OF R0] obtain s1 where
          w1: "fix_double_black (Some n) ?s0 = Some s1" and
          R1: "repc s1 (plug (a_fix_double_black ctx) ?t)
             (?cs0 @ map (\<lambda>a. Fix_double_black (Some a)) (fix_double_black_calls ctx n))"
          by blast
        obtain f' cx where cx: "a_fix_double_black ctx = f' # cx"
          using Cons by (cases "a_fix_double_black ctx") auto
        from a_fix_double_black_hd[of ctx] Cons cx
        have hd: "frame_addr f' = frame_addr f" "on_left f' = on_left f" by simp_all
        from R1 leaf have rep1: "represents s1 (plug (f' # cx) (Node Leaf n k c Leaf))"
          by (simp add: repc_def cx)
        from rep_is_on_left[OF rep1] hd
        have io: "is_on_left (heap s1) (Some n) = Some (on_left f)" by simp
        from rep_unlink[OF rep1] hd obtain s2 where
          w2: "(if on_left f then wr (Some (frame_addr f)) (\<lambda>x. x\<lparr>left := None\<rparr>) s1
               else wr (Some (frame_addr f)) (\<lambda>x. x\<lparr>right := None\<rparr>) s1) = Some s2" and
          rep2: "represents (free (Some n) s2) (plug (a_fix_double_black ctx) Leaf)"
          by (auto simp: cx)
        from if_wr_calls[OF w2] R1 rep2
        have "repc (free (Some n) s2) (plug (a_fix_double_black ctx) Leaf)
            (?cs0 @ map (\<lambda>a. Fix_double_black (Some a)) (fix_double_black_calls ctx n))"
          by (simp add: repc_def)
        with leaf True rt' rp w1 io w2 show ?thesis
          by (subst delete_helper.simps) (auto simp: Let_def celln Cons split: if_splits)
      next
        case False
        from rep0 have rep0': "represents ?s0 (plug (f # ctx') ?t)" by (simp add: Cons)
        from rep_sibling[OF rep0']
        have sb: "sibling (heap s) (Some n) = Some (ptr (sib f))" by simp
        from rep_paint_sib[OF rep0', of red] obtain s1 where
          w1: "(if ptr (sib f) \<noteq> None then wr (ptr (sib f)) (\<lambda>x. x\<lparr>color := red\<rparr>) ?s0
               else Some ?s0) = Some s1" and
          rep1: "represents s1 (plug (paint_sib red f # ctx') ?t)" by blast
        from w1 have c1: "calls s1 = ?cs0"
          using R by (auto simp: repc_def split: if_splits dest: wr_calls)
        from rep_is_on_left[OF rep1]
        have io: "is_on_left (heap s1) (Some n) = Some (on_left f)" by simp
        from rep1 leaf
        have "represents s1 (plug (paint_sib red f # ctx') (Node Leaf n k c Leaf))" by simp
        from rep_unlink[OF this, unfolded paint_sib_frame] obtain s2 where
          w2: "(if on_left f then wr (Some (frame_addr f)) (\<lambda>x. x\<lparr>left := None\<rparr>) s1
               else wr (Some (frame_addr f)) (\<lambda>x. x\<lparr>right := None\<rparr>) s1) = Some s2" and
          rep2: "represents (free (Some n) s2) (plug (paint_sib red f # ctx') Leaf)"
          by auto
        from if_wr_calls[OF w2] c1 rep2
        have "repc (free (Some n) s2) (plug (paint_sib red f # ctx') Leaf) ?cs0"
          by (simp add: repc_def)
        with leaf False rt' rp sb w1 io w2 show ?thesis
          by (subst delete_helper.simps) (auto simp: Let_def celln Cons split: if_splits)
      qed
    qed
  next
    case child: False
    with one obtain ml ma mk mc mr where
      m: "(l = Node ml ma mk mc mr \<and> r = Leaf) \<or> (l = Leaf \<and> r = Node ml ma mk mc mr)"
      by (cases l; cases r) auto
    let ?m = "Node ml ma mk mc mr"
    from m rp have rp': "replace (heap s) (Some n) = Some (Some ma)" by auto
    from m rep have cellm: "heap s ma = Some \<lparr>key = mk, parent = Some n, left = ptr ml,
        right = ptr mr, color = mc\<rparr>"
      by (auto simp: represents_plug)
    from m have lr: "ptr l = None \<or> ptr r = None" by auto
    from m have am: "a_delete_simple ctx ?t =
        (case ctx of [] \<Rightarrow> Node Leaf n mk c Leaf
         | f # ctx' \<Rightarrow> if mc = black \<and> c = black then plug (a_fix_double_black ctx) ?m
                       else plug ctx (Node ml ma mk black mr))"
      by (auto split: list.splits)
    from m have rc: "repair_calls ctx ?t =
        (if ctx \<noteq> [] \<and> mc = black \<and> c = black then fix_double_black_calls ctx ma else [])"
      by auto
    show ?thesis
    proof (cases ctx)
      case Nil
      from rep Nil have "represents ?s0 ?t" by simp
      from rep_root_child[OF this m] obtain s1 s2 s3 where
        w: "wr (Some n) (\<lambda>x. x\<lparr>key := mk\<rparr>) ?s0 = Some s1"
        "wr (Some n) (\<lambda>x. x\<lparr>right := None\<rparr>) s1 = Some s2"
        "wr (Some n) (\<lambda>x. x\<lparr>left := None\<rparr>) s2 = Some s3" and
        rep3: "represents (free (Some ma) s3) (Node Leaf n mk c Leaf)" by blast
      from w have "calls s3 = ?cs0"
        using R wr_calls[OF w(1)] wr_calls[OF w(2)] wr_calls[OF w(3)] by (simp add: repc_def)
      with rep3 have "repc (free (Some ma) s3) (Node Leaf n mk c Leaf) ?cs0"
        by (simp add: repc_def)
      with Nil rt rp' w lr show ?thesis
        unfolding am rc
        by (subst delete_helper.simps) (simp add: Let_def celln cellm)
    next
      case (Cons f ctx')
      with rt have rt': "root s \<noteq> Some n" by simp
      from rep0 have rep0': "represents ?s0 (plug (f # ctx') ?t)" by (simp add: Cons)
      from rep_is_on_left[OF rep0']
      have io: "is_on_left (heap s) (Some n) = Some (on_left f)" by simp
      from rep_splice[OF rep0' m] obtain s1 s2 where
        w1: "(if on_left f then wr (Some (frame_addr f)) (\<lambda>x. x\<lparr>left := Some ma\<rparr>) ?s0
             else wr (Some (frame_addr f)) (\<lambda>x. x\<lparr>right := Some ma\<rparr>) ?s0) = Some s1" and
        w2: "wr (Some ma) (\<lambda>x. x\<lparr>parent := Some (frame_addr f)\<rparr>) (free (Some n) s1) = Some s2"
        and rep2: "represents s2 (plug (f # ctx') ?m)" by blast
      from if_wr_calls[OF w1] wr_calls[OF w2] R have "calls s2 = ?cs0"
        by (simp add: repc_def)
      with rep2 have R2: "repc s2 (plug ctx ?m) ?cs0" by (simp add: repc_def Cons)
      show ?thesis
      proof (cases "mc = black \<and> c = black")
        case True
        from fix_double_black_refines[OF R2] obtain s' where
          "fix_double_black (Some ma) s2 = Some s'"
          "repc s' (plug (a_fix_double_black ctx) ?m)
             (?cs0 @ map (\<lambda>a. Fix_double_black (Some a)) (fix_double_black_calls ctx ma))"
          by blast
        with True rt' rp' io w1 w2 lr show ?thesis
          unfolding am rc
          by (subst delete_helper.simps) (auto simp: Let_def celln cellm Cons split: if_splits)
      next
        case False
        from repc_set_color[OF R2, of black] obtain s' where
          "wr (Some ma) (\<lambda>x. x\<lparr>color := black\<rparr>) s2 = Some s'"
          "repc s' (plug ctx (Node ml ma mk black mr)) ?cs0" by blast
        with False rt' rp' io w1 w2 lr show ?thesis
          unfolding am rc
          by (subst delete_helper.simps) (auto simp: Let_def celln cellm Cons split: if_splits)
      qed
    qed
  qed
qed

text \<open>\<^verbatim>\<open>delete_helper\<close> returns, with the tree that \<open>a_delete_helper\<close> gives.\<close>

lemma delete_helper_refines:
  assumes R: "repc s (plug ctx (Node l n k c r)) cs"
  shows "\<exists>s'. delete_helper (Some n) s = Some s'
      \<and> repc s' (a_delete_helper ctx (Node l n k c r)) (cs @ delete_calls ctx (Node l n k c r))"
proof (cases "l \<noteq> Leaf \<and> r \<noteq> Leaf")
  case False
  then have "l = Leaf \<or> r = Leaf" by simp
  from delete_simple_refines[OF R this] False show ?thesis
    by (auto simp: a_delete_helper_def delete_calls_def simp del: a_delete_simple.simps
          repair_calls.simps)
next
  case True
  let ?s0 = "s\<lparr>calls := calls s @ [Delete_helper (Some n)]\<rparr>"
  let ?cs0 = "cs @ [Delete_helper (Some n)]"
  from True obtain ma mk mc mr where mt: "min_tree r = Node Leaf ma mk mc mr"
    using min_tree_Node by blast
  let ?c = "min_path r (RightOf l n mk c # ctx)"
  from R have rep: "represents s (plug ctx (Node l n k c r))" by (simp add: repc_def)
  then have rep0: "represents ?s0 (plug ctx (Node l n k c r))" by simp
  from rep_replace[OF rep] True
  have rp: "replace (heap s) (Some n) = Some (Some ma)" by (simp add: mt)
  note celln = rep_cell[OF rep]
  from rep have "represents s (plug (min_path r (RightOf l n k c # ctx)) (Node Leaf ma mk mc mr))"
    using plug_min_path[of r "RightOf l n k c # ctx"] by (simp add: mt)
  from rep_cell[OF this] obtain cell where cellm: "heap s ma = Some cell" by blast
  from True have pl: "ptr l \<noteq> None" "ptr r \<noteq> None" by (simp_all add: ptr_None_iff)
  from rep_swap_keys[OF rep0] True obtain h where
    sw: "swap_keys (Some ma) (Some n) (heap s) = Some h" and
    rep1: "represents (?s0\<lparr>heap := h\<rparr>) (plug ?c (Node Leaf ma k mc mr))"
    by (auto simp: mt)
  from rep1 R have "repc (?s0\<lparr>heap := h\<rparr>) (plug ?c (Node Leaf ma k mc mr)) ?cs0"
    by (simp add: repc_def)
  from delete_simple_refines[OF this] obtain s' where
    "delete_helper (Some ma) (?s0\<lparr>heap := h\<rparr>) = Some s'"
    "repc s' (a_delete_simple ?c (Node Leaf ma k mc mr))
       (?cs0 @ Delete_helper (Some ma)
          # map (\<lambda>a. Fix_double_black (Some a)) (repair_calls ?c (Node Leaf ma k mc mr)))"
    by blast
  with True rp sw pl show ?thesis
    unfolding a_delete_helper_def delete_calls_def
    by (subst delete_helper.simps)
       (simp add: Let_def celln cellm mt del: a_delete_simple.simps repair_calls.simps)
qed

lemma delete_node_refines:
  assumes R: "repc s t cs" and b: "bst t" and x: "x \<in> set (keys t)"
  shows "\<exists>s'. delete_node x s = Some s'
      \<and> repc s' (a_delete_node x t) (cs @ delete_calls (find_path t x []) (find_tree t x))"
proof -
  from b x obtain l n c r where ft: "find_tree t x = Node l n x c r"
    using find_tree_Node by blast
  have pl: "plug (find_path t x []) (Node l n x c r) = t"
    using plug_find_path[of t x "[]"] by (simp add: ft)
  from R have rep: "represents s t" by (simp add: repc_def)
  from x have "t \<noteq> Leaf" by auto
  with rep have rt: "root s \<noteq> None" by (cases t) (auto simp: represents_def)
  have se: "search_tree x s = Some (Some n)"
    using search_tree_find[OF rep, of x] ptr_find_tree[of t x] by (simp add: ft)
  from R have "repc s (plug (find_path t x []) (Node l n x c r)) cs" by (simp add: pl)
  from delete_helper_refines[OF this] rt se show ?thesis
    by (auto simp: delete_node_def a_delete_node_def ft)
qed

text \<open>
  \<^verbatim>\<open>delete_node\<close> for a key of a red-black tree returns and leaves a red-black tree
  with the other keys.
\<close>

lemma delete_node_rbt:
  assumes "represents s t" and "rbt t" and "x \<in> set (keys t)"
  shows "\<exists>s'. delete_node x s = Some s' \<and> represents s' (a_delete_node x t)
           \<and> rbt (a_delete_node x t)
           \<and> set (keys (a_delete_node x t)) = set (keys t) - {x}"
proof -
  from assms(1) have "repc s t (calls s)" by (simp add: repc_def)
  from delete_node_refines[OF this _ assms(3)] assms(2)
  obtain s' where "delete_node x s = Some s'" "represents s' (a_delete_node x t)"
    by (auto simp: repc_def rbt_def)
  with a_delete_node_rbt[OF assms(2,3)] show ?thesis by blast
qed

section \<open>A concrete tree\<close>

text \<open>
  The tree of the specification's example, \<^verbatim>\<open>10b,5r,f,f,15r,f,f\<close>, as \<^verbatim>\<open>build_tree\<close> lays
  it out: the root 10 at address 0, its red children 5 and 15 at addresses 1 and 2, and
  \<^verbatim>\<open>last\<close> holding the entry of key 15.
\<close>

definition example_state :: RBTree where
  "example_state =
     \<lparr>root = Some 0,
      last_tmp = Some \<lparr>t_key = 15, t_color = False\<rparr>,
      tmp_tree = [],
      prefix_tree = [],
      heap = [0 \<mapsto> \<lparr>key = 10, parent = None, left = Some 1, right = Some 2, color = True\<rparr>,
              1 \<mapsto> \<lparr>key = 5, parent = Some 0, left = None, right = None, color = False\<rparr>,
              2 \<mapsto> \<lparr>key = 15, parent = Some 0, left = None, right = None, color = False\<rparr>],
      fresh = 3,
      cout = [],
      calls = []\<rparr>"

definition example_tree :: tree where
  "example_tree = Node (Node Leaf 1 5 False Leaf) 0 10 True (Node Leaf 2 15 False Leaf)"

lemma example_represents: "represents example_state example_tree"
  by (simp add: represents_def example_state_def example_tree_def)

lemma example_rbt: "rbt example_tree"
  by (simp add: rbt_def root_black_def example_tree_def)

lemma example_bst: "bst example_tree"
  using example_rbt by (simp add: rbt_def)

text \<open>
  The input \<^verbatim>\<open>10b,5r,f,f,f\<close>: a black root with a red left child and no right child, and
  the state \<^verbatim>\<open>build_tree\<close> makes of it.
\<close>

definition example_input :: "tmp_node list" where
  "example_input =
     [\<lparr>t_key = 10, t_color = True\<rparr>, \<lparr>t_key = 5, t_color = False\<rparr>,
      \<lparr>t_key = - 1, t_color = True\<rparr>, \<lparr>t_key = - 1, t_color = True\<rparr>,
      \<lparr>t_key = - 1, t_color = True\<rparr>]"

definition loaded_state :: RBTree where
  "loaded_state =
     \<lparr>root = Some 0,
      last_tmp = Some \<lparr>t_key = 5, t_color = False\<rparr>,
      tmp_tree = example_input,
      prefix_tree = [],
      heap = [0 \<mapsto> \<lparr>key = 10, parent = None, left = Some 1, right = None, color = True\<rparr>,
              1 \<mapsto> \<lparr>key = 5, parent = Some 0, left = None, right = None, color = False\<rparr>],
      fresh = 2,
      cout = [],
      calls = []\<rparr>"

definition loaded_tree :: tree where
  "loaded_tree = Node (Node Leaf 1 5 False Leaf) 0 10 True Leaf"

text \<open>The input \<^verbatim>\<open>10b\<close> of a single entry, and the state \<^verbatim>\<open>build_tree\<close> makes of it.\<close>

definition single_state :: RBTree where
  "single_state =
     \<lparr>root = Some 0,
      last_tmp = None,
      tmp_tree = [\<lparr>t_key = 10, t_color = True\<rparr>],
      prefix_tree = [],
      heap = [0 \<mapsto> \<lparr>key = 10, parent = None, left = None, right = None, color = True\<rparr>],
      fresh = 1,
      cout = [],
      calls = []\<rparr>"

section \<open>Properties of search, duplicate insertion and failed deletion\<close>

text \<open>
  C5. On a tree with the search-tree ordering, \<^verbatim>\<open>search_tree\<close> returns a node exactly
  when the key is one of the tree's keys, and the node returned carries that key. The
  search only reads: its result is a pointer, and no new state.
\<close>

theorem C5_search_found_iff_present:
  assumes "represents s t" and "bst t"
  shows "\<exists>p. search_tree x s = Some p
           \<and> (p \<noteq> None) = (x \<in> set (keys t))
           \<and> (case p of None \<Rightarrow> True
               | Some a \<Rightarrow> (case heap s a of None \<Rightarrow> False | Some n \<Rightarrow> key n = x))"
proof -
  have 1: "search_tree x s = Some (find_node t x)"
    using assms(1) by (rule search_tree_find)
  have 2: "(find_node t x \<noteq> None) = (x \<in> set (keys t))"
    using find_None_iff[OF assms(2), of x] by simp
  have 3: "case find_node t x of None \<Rightarrow> True
           | Some a \<Rightarrow> (case heap s a of None \<Rightarrow> False | Some n \<Rightarrow> key n = x)"
  proof (cases "find_node t x")
    case None
    then show ?thesis by simp
  next
    case (Some a)
    from assms(1) have "heap_tree (heap s) None t" by (simp add: represents_def)
    from find_Some_key[OF this Some] Some show ?thesis by auto
  qed
  from 1 2 3 show ?thesis by simp
qed

theorem C5_search_found_iff_present_witness:
  "represents example_state example_tree \<and> bst example_tree
   \<and> (\<exists>p. search_tree 15 example_state = Some p \<and> p \<noteq> None)
   \<and> search_tree 7 example_state = Some None"
proof -
  note r = example_represents and b = example_bst
  from C5_search_found_iff_present[OF r b, of 15]
  obtain p where "search_tree 15 example_state = Some p"
    and "(p \<noteq> None) = (15 \<in> set (keys example_tree))" by blast
  moreover have "15 \<in> set (keys example_tree)" by (simp add: example_tree_def)
  moreover
  from C5_search_found_iff_present[OF r b, of 7]
  obtain q where "search_tree 7 example_state = Some q"
    and "(q \<noteq> None) = (7 \<in> set (keys example_tree))" by blast
  moreover have "7 \<notin> set (keys example_tree)" by (simp add: example_tree_def)
  ultimately show ?thesis using r b by auto
qed

text \<open>
  C9. Inserting a key that the tree already holds returns the state as it was: no node
  is created, no link or colour is written, no rotation runs.
\<close>

theorem C9_insert_present_key_is_noop:
  assumes "represents s t" and "bst t" and "x \<in> set (keys t)"
  shows "insert_node x s = Some s"
proof -
  have "find_node t x \<noteq> None"
    using find_None_iff[OF assms(2), of x] assms(3) by simp
  then obtain a where "find_node t x = Some a" by auto
  then show ?thesis
    by (simp add: insert_node_def search_tree_find[OF assms(1)])
qed

theorem C9_insert_present_key_is_noop_witness:
  "represents example_state example_tree \<and> bst example_tree
   \<and> 5 \<in> set (keys example_tree) \<and> insert_node 5 example_state = Some example_state"
proof -
  have k: "5 \<in> set (keys example_tree)" by (simp add: example_tree_def)
  from C9_insert_present_key_is_noop[OF example_represents example_bst k]
  show ?thesis using example_represents example_bst k by simp
qed

text \<open>
  C8. \<^verbatim>\<open>delete_node\<close> on a tree with no root returns the state as it was. On a tree
  that does not hold the key it writes the error message to \<^verbatim>\<open>cout\<close> and changes nothing
  else: the root, the store and every other member are as before.
\<close>

theorem C8_delete_empty_or_absent:
  "(root s = None \<longrightarrow> delete_node x s = Some s)
   \<and> (represents s t \<and> t \<noteq> Leaf \<and> bst t \<and> x \<notin> set (keys t) \<longrightarrow>
        delete_node x s
          = Some (s\<lparr>cout := cout s @ ''Error: couldn't find '' @ to_string x
                               @ ''in the tree.'' @ [CHR 0x0A]\<rparr>))"
proof (intro conjI impI)
  assume "root s = None"
  then show "delete_node x s = Some s" by (simp add: delete_node_def)
next
  assume a: "represents s t \<and> t \<noteq> Leaf \<and> bst t \<and> x \<notin> set (keys t)"
  then have "find_node t x = None" using find_None_iff[of t x] by simp
  moreover from a obtain r where "root s = Some r" by (cases t) (auto simp: represents_def)
  moreover from a have "search_tree x s = Some (find_node t x)"
    by (simp add: search_tree_find)
  ultimately show "delete_node x s
          = Some (s\<lparr>cout := cout s @ ''Error: couldn't find '' @ to_string x
                               @ ''in the tree.'' @ [CHR 0x0A]\<rparr>)"
    by (simp add: delete_node_def)
qed

theorem C8_delete_empty_or_absent_witness:
  "root (RBTree_new []) = None
   \<and> delete_node 7 (RBTree_new []) = Some (RBTree_new [])
   \<and> represents example_state example_tree \<and> example_tree \<noteq> Leaf \<and> bst example_tree
   \<and> 7 \<notin> set (keys example_tree)
   \<and> delete_node 7 example_state
       = Some (example_state\<lparr>cout := ''Error: couldn't find 7in the tree.'' @ [CHR 0x0A]\<rparr>)"
proof -
  have e: "root (RBTree_new []) = None" by (simp add: RBTree_new_def)
  have n: "example_tree \<noteq> Leaf" "7 \<notin> set (keys example_tree)"
    by (simp_all add: example_tree_def)
  have c: "cout example_state = []" by (simp add: example_state_def)
  have d: "to_string 7 = ''7''" by (simp add: to_string_def digits.simps)
  from C8_delete_empty_or_absent[of "RBTree_new []" 7 Leaf] e
  have 1: "delete_node 7 (RBTree_new []) = Some (RBTree_new [])" by blast
  from C8_delete_empty_or_absent[of example_state 7 example_tree]
    example_represents example_bst n
  have 2: "delete_node 7 example_state
       = Some (example_state\<lparr>cout := cout example_state @ ''Error: couldn't find ''
                 @ to_string 7 @ ''in the tree.'' @ [CHR 0x0A]\<rparr>)" by blast
  from 1 2 e n c d example_represents example_bst show ?thesis by simp
qed

section \<open>The bulk load returns\<close>

text \<open>
  The tree after \<^verbatim>\<open>build_tree_helper\<close> has placed the entry \<open>cur\<close> in a new node at
  address \<open>n\<close>: to the right of a node with a smaller key, to the left otherwise.
\<close>

fun place :: "nat \<Rightarrow> tmp_node \<Rightarrow> tree \<Rightarrow> tree" where
  "place n cur Leaf = Node Leaf n (t_key cur) (t_color cur) Leaf"
| "place n cur (Node l a k c r) =
     (if t_key cur > k then Node l a k c (place n cur r)
      else Node (place n cur l) a k c r)"

text \<open>The loop of \<^verbatim>\<open>build_tree\<close>: the entries with a key are placed one after the other.\<close>

fun place_all :: "nat \<Rightarrow> tmp_node list \<Rightarrow> tree \<Rightarrow> tree" where
  "place_all n [] t = t"
| "place_all n (cur # rest) t =
     (if t_key cur \<noteq> - 1 then place_all (Suc n) rest (place n cur t)
      else place_all n rest t)"

lemma place_not_Leaf [simp]: "place n cur t \<noteq> Leaf"
  by (induction t) auto

lemma ptr_place: "t \<noteq> Leaf \<Longrightarrow> ptr (place n cur t) = ptr t"
  by (cases t) auto

lemma addrs_place: "addrs (place n cur t) = insert n (addrs t)"
  by (induction t) auto

lemma uniq_place: "n \<notin> addrs t \<Longrightarrow> uniq t \<Longrightarrow> uniq (place n cur t)"
  by (induction t) (auto simp: addrs_place)

lemma build_tree_helper_place:
  assumes "heap_tree (heap s) par t" and "uniq t" and "addrs t \<subseteq> {..<fresh s}"
  shows "\<exists>s'. build_tree_helper (ptr t) cur s = Some (ptr (place (fresh s) cur t), s')
           \<and> s' = s\<lparr>heap := heap s', fresh := Suc (fresh s)\<rparr>
           \<and> heap_tree (heap s') (if t = Leaf then None else par) (place (fresh s) cur t)
           \<and> (\<forall>b. b \<notin> addrs t \<longrightarrow> b \<noteq> fresh s \<longrightarrow> heap s' b = heap s b)"
  using assms
proof (induction t arbitrary: par)
  case Leaf
  show ?case
    by (subst build_tree_helper.simps) (simp add: new_node_def wr_def upd_def)
next
  case (Node l a k c r)
  let ?n = "fresh s"
  let ?h = "heap s"
  from Node.prems have
    ha: "?h a = Some \<lparr>key = k, parent = par, left = ptr l, right = ptr r, color = c\<rparr>" and
    hl: "heap_tree ?h (Some a) l" and hr: "heap_tree ?h (Some a) r" and
    d: "a \<notin> addrs l" "a \<notin> addrs r" "addrs l \<inter> addrs r = {}" "?n \<noteq> a" "?n \<notin> addrs l"
       "?n \<notin> addrs r" "uniq l" "uniq r" "addrs l \<subseteq> {..<?n}" "addrs r \<subseteq> {..<?n}"
    by auto
  show ?case
  proof (cases "t_key cur > k")
    case True
    from Node.IH(2)[OF hr d(8) d(10)] obtain s1 where
      1: "build_tree_helper (ptr r) cur s = Some (ptr (place ?n cur r), s1)" and
      e: "s1 = s\<lparr>heap := heap s1, fresh := Suc ?n\<rparr>" and
      2: "heap_tree (heap s1) (if r = Leaf then None else Some a) (place ?n cur r)" and
      3: "\<And>b. b \<notin> addrs r \<Longrightarrow> b \<noteq> ?n \<Longrightarrow> heap s1 b = ?h b"
      by blast
    define h1 where "h1 = heap s1"
    note e = e[folded h1_def] and 2 = 2[folded h1_def] and 3 = 3[folded h1_def]
    note 1 = 1[unfolded e]
    obtain tl b tk tc tr where T: "place ?n cur r = Node tl b tk tc tr"
      by (cases "place ?n cur r") auto
    from uniq_place[OF d(6) d(8), of cur] T have ub: "b \<notin> addrs tl" "b \<notin> addrs tr" by auto
    from addrs_place[of ?n cur r] T have bin: "b \<in> insert ?n (addrs r)"
        "addrs (Node tl b tk tc tr) = insert ?n (addrs r)" by auto
    with d have ba: "b \<noteq> a" by auto
    from 3[of a] d have h1a: "h1 a = ?h a" by simp
    from 2 T have cb:
      "h1 b = Some \<lparr>key = tk, parent = (if r = Leaf then None else Some a), left = ptr tl,
                    right = ptr tr, color = tc\<rparr>" by simp
    let ?h2 = "h1(a \<mapsto> \<lparr>key = k, parent = par, left = ptr l, right = Some b, color = c\<rparr>)"
    let ?h3 = "?h2(b \<mapsto> \<lparr>key = tk, parent = Some a, left = ptr tl, right = ptr tr, color = tc\<rparr>)"
    have exec: "build_tree_helper (Some a) cur s
        = Some (Some a, s\<lparr>heap := ?h3, fresh := Suc ?n\<rparr>)"
      using True 1 T h1a ha cb ba
      by (subst build_tree_helper.simps) (simp add: wr_def upd_def)
    have "a \<notin> addrs (Node tl b tk tc tr)" using bin d by auto
    with 2 T have "heap_tree ?h2 (if r = Leaf then None else Some a) (Node tl b tk tc tr)"
      by (simp add: heap_tree_frame)
    from heap_tree_reparent[OF this ub, of "Some a"]
    have t3: "heap_tree ?h3 (Some a) (Node tl b tk tc tr)" by simp
    have l3: "heap_tree ?h3 (Some a) l"
    proof -
      have "\<And>b'. b' \<in> addrs l \<Longrightarrow> ?h3 b' = ?h b'"
        using 3 bin d by auto
      from heap_tree_cong[of l ?h3 ?h, OF this] hl show ?thesis by simp
    qed
    have a3: "?h3 a = Some \<lparr>key = k, parent = par, left = ptr l, right = Some b, color = c\<rparr>"
      using ba by simp
    have fr: "\<forall>b'. b' \<notin> addrs (Node l a k c r) \<longrightarrow> b' \<noteq> ?n \<longrightarrow> ?h3 b' = ?h b'"
      using 3 bin by auto
    from exec t3 l3 a3 fr True T show ?thesis by (simp del: fun_upd_apply)
  next
    case False
    from Node.IH(1)[OF hl d(7) d(9)] obtain s1 where
      1: "build_tree_helper (ptr l) cur s = Some (ptr (place ?n cur l), s1)" and
      e: "s1 = s\<lparr>heap := heap s1, fresh := Suc ?n\<rparr>" and
      2: "heap_tree (heap s1) (if l = Leaf then None else Some a) (place ?n cur l)" and
      3: "\<And>b. b \<notin> addrs l \<Longrightarrow> b \<noteq> ?n \<Longrightarrow> heap s1 b = ?h b"
      by blast
    define h1 where "h1 = heap s1"
    note e = e[folded h1_def] and 2 = 2[folded h1_def] and 3 = 3[folded h1_def]
    note 1 = 1[unfolded e]
    obtain tl b tk tc tr where T: "place ?n cur l = Node tl b tk tc tr"
      by (cases "place ?n cur l") auto
    from uniq_place[OF d(5) d(7), of cur] T have ub: "b \<notin> addrs tl" "b \<notin> addrs tr" by auto
    from addrs_place[of ?n cur l] T have bin: "b \<in> insert ?n (addrs l)"
        "addrs (Node tl b tk tc tr) = insert ?n (addrs l)" by auto
    with d have ba: "b \<noteq> a" by auto
    from 3[of a] d have h1a: "h1 a = ?h a" by simp
    from 2 T have cb:
      "h1 b = Some \<lparr>key = tk, parent = (if l = Leaf then None else Some a), left = ptr tl,
                    right = ptr tr, color = tc\<rparr>" by simp
    let ?h2 = "h1(a \<mapsto> \<lparr>key = k, parent = par, left = Some b, right = ptr r, color = c\<rparr>)"
    let ?h3 = "?h2(b \<mapsto> \<lparr>key = tk, parent = Some a, left = ptr tl, right = ptr tr, color = tc\<rparr>)"
    have exec: "build_tree_helper (Some a) cur s
        = Some (Some a, s\<lparr>heap := ?h3, fresh := Suc ?n\<rparr>)"
      using False 1 T h1a ha cb ba
      by (subst build_tree_helper.simps) (simp add: wr_def upd_def)
    have "a \<notin> addrs (Node tl b tk tc tr)" using bin d by auto
    with 2 T have "heap_tree ?h2 (if l = Leaf then None else Some a) (Node tl b tk tc tr)"
      by (simp add: heap_tree_frame)
    from heap_tree_reparent[OF this ub, of "Some a"]
    have t3: "heap_tree ?h3 (Some a) (Node tl b tk tc tr)" by simp
    have r3: "heap_tree ?h3 (Some a) r"
    proof -
      have "\<And>b'. b' \<in> addrs r \<Longrightarrow> ?h3 b' = ?h b'"
        using 3 bin d by auto
      from heap_tree_cong[of r ?h3 ?h, OF this] hr show ?thesis by simp
    qed
    have a3: "?h3 a = Some \<lparr>key = k, parent = par, left = Some b, right = ptr r, color = c\<rparr>"
      using ba by simp
    have fr: "\<forall>b'. b' \<notin> addrs (Node l a k c r) \<longrightarrow> b' \<noteq> ?n \<longrightarrow> ?h3 b' = ?h b'"
      using 3 bin by auto
    from exec t3 r3 a3 fr False T show ?thesis by (simp del: fun_upd_apply)
  qed
qed


lemma represents_last_tmp [simp]: "represents (s\<lparr>last_tmp := x\<rparr>) t = represents s t"
  by (simp add: represents_def)

text \<open>One entry is placed in a store that holds a tree.\<close>

lemma build_tree_helper_returns:
  assumes "represents s t"
  shows "\<exists>s'. build_tree_helper (root s) cur s = Some (ptr (place (fresh s) cur t), s')
           \<and> represents (s'\<lparr>root := ptr (place (fresh s) cur t)\<rparr>) (place (fresh s) cur t)
           \<and> fresh s' = Suc (fresh s) \<and> root s' = root s \<and> last_tmp s' = last_tmp s"
proof -
  from assms have r: "root s = ptr t" and h: "heap_tree (heap s) None t" and u: "uniq t"
    and a: "addrs t \<subseteq> {..<fresh s}"
    by (simp_all add: represents_def)
  from build_tree_helper_place[OF h u a, of cur] obtain s' where
    1: "build_tree_helper (ptr t) cur s = Some (ptr (place (fresh s) cur t), s')" and
    e: "s' = s\<lparr>heap := heap s', fresh := Suc (fresh s)\<rparr>" and
    2: "heap_tree (heap s') None (place (fresh s) cur t)"
    by auto
  from e have f: "fresh s' = Suc (fresh s)" "root s' = root s" "last_tmp s' = last_tmp s"
    by (metis RBTree.select_convs RBTree.surjective RBTree.update_convs)+
  from a have "fresh s \<notin> addrs t" by auto
  from uniq_place[OF this u, of cur] a 2 f
  have "represents (s'\<lparr>root := ptr (place (fresh s) cur t)\<rparr>) (place (fresh s) cur t)"
    by (auto simp: represents_def addrs_place)
  with 1 r f show ?thesis by simp
qed

text \<open>
  The loop of \<^verbatim>\<open>build_tree\<close> returns on a store that holds a tree with a root, and leaves
  in \<^verbatim>\<open>last\<close> the last entry that carries a key.
\<close>

lemma build_tree_loop_returns:
  "represents s t \<Longrightarrow> t \<noteq> Leaf \<Longrightarrow>
   \<exists>s'. build_tree_loop es s = Some s' \<and> represents s' (place_all (fresh s) es t)
      \<and> last_tmp s' = (if keyed es = [] then last_tmp s else Some (last (keyed es)))"
proof (induction es arbitrary: s t)
  case Nil
  then show ?case by (simp add: keyed_def)
next
  case (Cons e es)
  show ?case
  proof (cases "t_key e \<noteq> - 1")
    case False
    with Cons.IH[OF Cons.prems] show ?thesis by (auto simp: keyed_def)
  next
    case True
    let ?s0 = "s\<lparr>last_tmp := Some e\<rparr>"
    let ?t1 = "place (fresh s) e t"
    from Cons.prems(1) have "represents ?s0 t" by simp
    from build_tree_helper_returns[OF this, of e] obtain s1 where
      1: "build_tree_helper (root s) e ?s0 = Some (ptr ?t1, s1)" and
      2: "represents (s1\<lparr>root := ptr ?t1\<rparr>) ?t1" and
      3: "fresh s1 = Suc (fresh s)" "root s1 = root s" "last_tmp s1 = Some e"
      by auto
    from Cons.prems have "root s = ptr ?t1"
      by (simp add: ptr_place represents_def)
    with 3 have "s1\<lparr>root := ptr ?t1\<rparr> = s1" by simp
    with 2 have r1: "represents s1 ?t1" by simp
    from Cons.IH[OF r1] obtain s' where
      "build_tree_loop es s1 = Some s'" "represents s' (place_all (fresh s1) es ?t1)"
      "last_tmp s' = (if keyed es = [] then last_tmp s1 else Some (last (keyed es)))"
      by auto
    with True 1 3 show ?thesis by (simp add: keyed_def Let_def)
  qed
qed

text \<open>
  \<^verbatim>\<open>build_tree\<close> returns on a store that holds a tree, in particular on a new \<^verbatim>\<open>RBTree\<close>,
  when its input has an entry.
\<close>

lemma build_tree_returns:
  assumes "represents s t" and "tmp_tree s = e # es"
  shows "\<exists>s'. build_tree s = Some s'
           \<and> represents s' (place_all (Suc (fresh s)) es (place (fresh s) e t))
           \<and> last_tmp s' = (if keyed es = [] then last_tmp s else Some (last (keyed es)))"
proof -
  let ?t1 = "place (fresh s) e t"
  from build_tree_helper_returns[OF assms(1), of e] obtain s1 where
    1: "build_tree_helper (root s) e s = Some (ptr ?t1, s1)" and
    2: "represents (s1\<lparr>root := ptr ?t1\<rparr>) ?t1" and
    3: "fresh s1 = Suc (fresh s)" "last_tmp s1 = last_tmp s"
    by auto
  from build_tree_loop_returns[OF 2, of es] 3 obtain s' where
    "build_tree_loop es (s1\<lparr>root := ptr ?t1\<rparr>) = Some s'"
    "represents s' (place_all (Suc (fresh s)) es ?t1)"
    "last_tmp s' = (if keyed es = [] then last_tmp s else Some (last (keyed es)))"
    by auto
  with 1 assms(2) show ?thesis by (simp add: build_tree_def)
qed

section \<open>Properties of the pre-order string\<close>

lemma prefix_order_set:
  assumes "represents s t" and "last_tmp s = Some lt"
  shows "prefix_order s = Some (s\<lparr>prefix_tree := serialize (t_key lt) t\<rparr>)"
proof -
  from assms(1) have "heap_tree (heap (s\<lparr>prefix_tree := []\<rparr>)) None t" and "root s = ptr t"
    by (simp_all add: represents_def)
  with prefix_order_helper_serialize[of "s\<lparr>prefix_tree := []\<rparr>" None t lt] assms(2)
  show ?thesis by (simp add: prefix_order_def)
qed

lemma prefix_order_unset:
  assumes "represents s t" and "last_tmp s = None"
  shows "prefix_order s = (if t = Leaf then Some (s\<lparr>prefix_tree := []\<rparr>) else None)"
proof -
  from assms(1) have "heap_tree (heap (s\<lparr>prefix_tree := []\<rparr>)) None t" and "root s = ptr t"
    by (simp_all add: represents_def)
  with prefix_order_helper_unset[of "s\<lparr>prefix_tree := []\<rparr>" None t] assms(2)
  show ?thesis by (simp add: prefix_order_def)
qed

lemma prefix_order_Leaf:
  assumes "represents s Leaf"
  shows "prefix_order s = Some (s\<lparr>prefix_tree := []\<rparr>)"
proof (cases "last_tmp s")
  case None
  with prefix_order_unset[OF assms] show ?thesis by simp
next
  case (Some lt)
  with prefix_order_set[OF assms] show ?thesis by simp
qed

text \<open>
  C6, as stated, fails. The specification's format puts the marker of an absent right
  child after the whole left subtree and separates the tokens by commas. For the tree
  loaded from \<^verbatim>\<open>10b,5r,f,f,f\<close> that is \<^verbatim>\<open>10b,5r,f,f\<close>; the code writes \<^verbatim>\<open>10b,f,5r,f,\<close>: the
  marker of the root's absent right child comes before the left subtree, and a comma
  ends the string.
\<close>

theorem C6_markers_precede_left_subtree:
  "build_tree (RBTree_new example_input) = Some loaded_state
   \<and> represents loaded_state loaded_tree
   \<and> prefix_order loaded_state = Some (loaded_state\<lparr>prefix_tree := ''10b,f,5r,f,''\<rparr>)
   \<and> specified_prefix_tree 5 loaded_tree = ''10b,5r,f,f''
   \<and> get_prefix_tree (loaded_state\<lparr>prefix_tree := ''10b,f,5r,f,''\<rparr>)
       \<noteq> specified_prefix_tree 5 loaded_tree"
proof -
  have 1: "build_tree (RBTree_new example_input) = Some loaded_state"
    by (simp add: exec_simps example_input_def loaded_state_def
          cong: bind_weak_cong let_weak_cong)
  have 2: "represents loaded_state loaded_tree"
    by (simp add: represents_def loaded_state_def loaded_tree_def)
  have 3: "serialize 5 loaded_tree = ''10b,f,5r,f,''"
    by (simp add: loaded_tree_def to_string_def digits.simps)
  have 4: "last_tmp loaded_state = Some \<lparr>t_key = 5, t_color = False\<rparr>"
    by (simp add: loaded_state_def)
  have 5: "specified_prefix_tree 5 loaded_tree = ''10b,5r,f,f''"
    by (simp add: specified_prefix_tree_def loaded_tree_def to_string_def digits.simps)
  from prefix_order_set[OF 2 4] 3
  have 6: "prefix_order loaded_state = Some (loaded_state\<lparr>prefix_tree := ''10b,f,5r,f,''\<rparr>)"
    by simp
  from 1 2 5 6 show ?thesis by (simp add: get_prefix_tree_def)
qed

text \<open>
  C6, amended. With \<^verbatim>\<open>last\<close> assigned, \<^verbatim>\<open>prefix_order\<close> sets \<^verbatim>\<open>prefix_tree\<close> to
  \<open>serialize\<close> of the tree: the nodes in pre-order, each as its key and colour letter
  followed by a comma, and directly after a node's token one \<^verbatim>\<open>f,\<close> for an absent left
  child and one \<^verbatim>\<open>f,\<close> for an absent right child unless the node's key is the key of
  \<^verbatim>\<open>last\<close>. The empty tree gives the empty string.
\<close>

theorem C6_prefix_order_serialize:
  assumes "represents s t" and "last_tmp s = Some lt"
  shows "prefix_order s = Some (s\<lparr>prefix_tree := serialize (t_key lt) t\<rparr>)
         \<and> get_prefix_tree (s\<lparr>prefix_tree := serialize (t_key lt) t\<rparr>)
             = serialize (t_key lt) t"
  using prefix_order_set[OF assms] by (simp add: get_prefix_tree_def)

theorem C6_prefix_order_serialize_witness:
  "represents example_state example_tree
   \<and> last_tmp example_state = Some \<lparr>t_key = 15, t_color = False\<rparr>
   \<and> prefix_order example_state
       = Some (example_state\<lparr>prefix_tree := ''10b,5r,f,f,15r,f,''\<rparr>)"
proof -
  have l: "last_tmp example_state = Some \<lparr>t_key = 15, t_color = False\<rparr>"
    by (simp add: example_state_def)
  have "serialize 15 example_tree = ''10b,5r,f,f,15r,f,''"
    by (simp add: example_tree_def to_string_def digits.simps)
  with C6_prefix_order_serialize[OF example_represents l] example_represents l
  show ?thesis by simp
qed

text \<open>
  C10, as stated, fails: a tree that was never bulk-loaded and holds no node is
  serialized without reading \<^verbatim>\<open>last\<close>, and so is the tree loaded from the single entry
  \<^verbatim>\<open>10b\<close> once key 10 has been deleted. In both \<^verbatim>\<open>last\<close> was never assigned.
\<close>

theorem C10_empty_tree_is_serialized:
  "last_tmp (RBTree_new []) = None
   \<and> prefix_order (RBTree_new []) = Some (RBTree_new [])
   \<and> build_tree (RBTree_new [\<lparr>t_key = 10, t_color = True\<rparr>]) = Some single_state
   \<and> last_tmp single_state = None
   \<and> delete_node 10 single_state
       = Some (single_state\<lparr>root := None, heap := Map.empty, calls := [Delete_helper (Some 0)]\<rparr>)
   \<and> prefix_order
        (single_state\<lparr>root := None, heap := Map.empty, calls := [Delete_helper (Some 0)]\<rparr>)
       = Some (single_state\<lparr>root := None, heap := Map.empty,
                 calls := [Delete_helper (Some 0)]\<rparr>)"
  by (simp add: exec_simps single_state_def cong: bind_weak_cong let_weak_cong)

text \<open>
  C10, amended. \<^verbatim>\<open>prefix_order\<close> reads \<^verbatim>\<open>last\<close> at every node without a right child: its
  behaviour is undefined exactly when the tree is not empty and \<^verbatim>\<open>last\<close> was never
  assigned, and on an empty tree it sets \<^verbatim>\<open>prefix_tree\<close> to the empty string. On a store
  that holds a tree, in particular on a new \<^verbatim>\<open>RBTree\<close>, and with an input of at least one
  entry, \<^verbatim>\<open>build_tree\<close> returns, the store then holds the tree with the first entry and
  the later entries with a key placed in it, and \<^verbatim>\<open>last\<close> is the last entry after the
  first whose key is not \<open>-1\<close>, or is as before when there is none.
\<close>

theorem C10_prefix_order_needs_last:
  "(represents s t \<longrightarrow> (prefix_order s = None) = (t \<noteq> Leaf \<and> last_tmp s = None))
   \<and> (represents s Leaf \<longrightarrow> prefix_order s = Some (s\<lparr>prefix_tree := []\<rparr>))
   \<and> (represents s t \<and> tmp_tree s \<noteq> [] \<longrightarrow>
        (\<exists>s'. build_tree s = Some s'
           \<and> represents s'
               (place_all (Suc (fresh s)) (tl (tmp_tree s)) (place (fresh s) (hd (tmp_tree s)) t))
           \<and> last_tmp s' = (if keyed (tl (tmp_tree s)) = [] then last_tmp s
                             else Some (last (keyed (tl (tmp_tree s)))))))"
proof (intro conjI impI)
  assume r: "represents s t"
  show "(prefix_order s = None) = (t \<noteq> Leaf \<and> last_tmp s = None)"
  proof (cases "last_tmp s")
    case None
    with prefix_order_unset[OF r] show ?thesis by simp
  next
    case (Some lt)
    with prefix_order_set[OF r] show ?thesis by simp
  qed
next
  assume "represents s Leaf"
  then show "prefix_order s = Some (s\<lparr>prefix_tree := []\<rparr>)" by (rule prefix_order_Leaf)
next
  assume a: "represents s t \<and> tmp_tree s \<noteq> []"
  then obtain e es where "tmp_tree s = e # es" by (cases "tmp_tree s") auto
  with build_tree_returns[of s t e es] a
  show "\<exists>s'. build_tree s = Some s'
           \<and> represents s'
               (place_all (Suc (fresh s)) (tl (tmp_tree s)) (place (fresh s) (hd (tmp_tree s)) t))
           \<and> last_tmp s' = (if keyed (tl (tmp_tree s)) = [] then last_tmp s
                             else Some (last (keyed (tl (tmp_tree s)))))"
    by auto
qed

theorem C10_prefix_order_needs_last_witness:
  "represents single_state (Node Leaf 0 10 True Leaf)
   \<and> prefix_order single_state = None
   \<and> last_tmp single_state = None
   \<and> represents loaded_state loaded_tree
   \<and> prefix_order loaded_state \<noteq> None
   \<and> represents (RBTree_new []) Leaf
   \<and> prefix_order (RBTree_new []) = Some (RBTree_new [])
   \<and> represents (RBTree_new example_input) Leaf
   \<and> tmp_tree (RBTree_new example_input) \<noteq> []
   \<and> (\<exists>s'. build_tree (RBTree_new example_input) = Some s'
         \<and> represents s' loaded_tree
         \<and> last_tmp s' = Some \<lparr>t_key = 5, t_color = False\<rparr>)"
proof -
  have 1: "represents single_state (Node Leaf 0 10 True Leaf)"
    by (simp add: represents_def single_state_def)
  have 2: "last_tmp single_state = None" by (simp add: single_state_def)
  have 3: "represents loaded_state loaded_tree"
    by (simp add: represents_def loaded_state_def loaded_tree_def)
  have 4: "represents (RBTree_new ts) Leaf" for ts
    by (simp add: represents_def RBTree_new_def)
  have 5: "tmp_tree (RBTree_new example_input) \<noteq> []"
    "keyed (tl (tmp_tree (RBTree_new example_input))) = [\<lparr>t_key = 5, t_color = False\<rparr>]"
    "place_all (Suc (fresh (RBTree_new example_input))) (tl (tmp_tree (RBTree_new example_input)))
       (place (fresh (RBTree_new example_input)) (hd (tmp_tree (RBTree_new example_input))) Leaf)
     = loaded_tree"
    by (simp_all add: keyed_def RBTree_new_def example_input_def loaded_tree_def)
  from C10_prefix_order_needs_last[of single_state "Node Leaf 0 10 True Leaf"] 1 2
  have 6: "prefix_order single_state = None" by simp
  from C10_prefix_order_needs_last[of loaded_state loaded_tree] 3
  have 7: "prefix_order loaded_state \<noteq> None" by (simp add: loaded_state_def)
  from C10_prefix_order_needs_last[of "RBTree_new []" Leaf] 4
  have 8: "prefix_order (RBTree_new []) = Some (RBTree_new [])"
    by (simp add: RBTree_new_def)
  from C10_prefix_order_needs_last[of "RBTree_new example_input" Leaf] 4 5
  have 9: "\<exists>s'. build_tree (RBTree_new example_input) = Some s'
         \<and> represents s' loaded_tree
         \<and> last_tmp s' = Some \<lparr>t_key = 5, t_color = False\<rparr>"
    by simp
  from 1 2 3 4 5(1) 6 7 8 9 show ?thesis by simp
qed

section \<open>Sequences of operations\<close>

text \<open>
  \<^verbatim>\<open>struct tree_op\<close> names an operation and its key. \<open>apply_ops\<close> runs the modifying
  operations of a list one after the other on one tree, each to completion.
\<close>

datatype tree_op = Insert int | Delete int

fun apply_op :: "tree_op \<Rightarrow> RBTree \<Rightarrow> RBTree option" where
  "apply_op (Insert k) s = insert_node k s"
| "apply_op (Delete k) s = delete_node k s"

fun apply_ops :: "tree_op list \<Rightarrow> RBTree \<Rightarrow> RBTree option" where
  "apply_ops [] s = Some s"
| "apply_ops (x # xs) s = apply_op x s \<bind> apply_ops xs"

lemma apply_ops_append: "apply_ops (xs @ ys) s = apply_ops xs s \<bind> apply_ops ys"
  by (induction xs arbitrary: s) (auto split: bind_splits)

lemma represents_cout [simp]: "represents (s\<lparr>cout := x\<rparr>) t = represents s t"
  by (simp add: represents_def)

lemma delete_node_absent:
  assumes "represents s t" and "bst t" and "x \<notin> set (keys t)"
  shows "\<exists>s'. delete_node x s = Some s' \<and> represents s' t"
proof (cases t)
  case Leaf
  with assms(1) have "root s = None" by (simp add: represents_def)
  with assms(1) show ?thesis by (simp add: delete_node_def)
next
  case (Node l a k c r)
  with assms(1) have "root s \<noteq> None" by (simp add: represents_def)
  moreover from assms have "search_tree x s = Some None"
    using find_None_iff[of t x] by (simp add: search_tree_find)
  ultimately show ?thesis using assms(1) by (simp add: delete_node_def)
qed

lemma delete_node_any:
  assumes "represents s t" and "rbt t"
  shows "\<exists>s' t'. delete_node x s = Some s' \<and> represents s' t' \<and> rbt t'
           \<and> set (keys t') = set (keys t) - {x}"
proof (cases "x \<in> set (keys t)")
  case True
  from delete_node_rbt[OF assms True] show ?thesis by blast
next
  case False
  from assms(2) have "bst t" by (simp add: rbt_def)
  from delete_node_absent[OF assms(1) this False] assms(2) False show ?thesis by auto
qed

text \<open>The keys a tree holds after a list of operations.\<close>

fun keys_after_op :: "tree_op \<Rightarrow> int set \<Rightarrow> int set" where
  "keys_after_op (Insert k) ks = insert k ks"
| "keys_after_op (Delete k) ks = ks - {k}"

lemma apply_op_rbt:
  assumes "represents s t" and "rbt t"
  shows "\<exists>s' t'. apply_op x s = Some s' \<and> represents s' t' \<and> rbt t'
           \<and> set (keys t') = keys_after_op x (set (keys t))"
proof (cases x)
  case (Insert k)
  with insert_node_rbt[OF assms, of k] show ?thesis by simp
next
  case (Delete k)
  with delete_node_any[OF assms, of k] show ?thesis by simp
qed

lemma apply_ops_rbt:
  "represents s t \<Longrightarrow> rbt t \<Longrightarrow>
   \<exists>s' t'. apply_ops xs s = Some s' \<and> represents s' t' \<and> rbt t'
      \<and> set (keys t') = fold keys_after_op xs (set (keys t))"
proof (induction xs arbitrary: s t)
  case Nil
  then show ?case by auto
next
  case (Cons x xs)
  from apply_op_rbt[OF Cons.prems, of x] obtain s1 t1 where
    1: "apply_op x s = Some s1" "represents s1 t1" "rbt t1"
    "set (keys t1) = keys_after_op x (set (keys t))" by blast
  from Cons.IH[OF 1(2,3)] 1(1,4) show ?case by simp
qed

lemma fold_inserts: "fold keys_after_op (map Insert xs) ks = ks \<union> set xs"
  by (induction xs arbitrary: ks) auto

lemma fold_deletes: "fold keys_after_op (map Delete xs) ks = ks - set xs"
  by (induction xs arbitrary: ks) auto

text \<open>What \<^verbatim>\<open>in_order\<close> writes: the keys of the tree from left to right, a blank after each.\<close>

definition in_order_text :: "int list \<Rightarrow> string" where
  "in_order_text ks = concat (map (\<lambda>k. to_string k @ '' '') ks)"

lemma in_order_helper_None [simp]: "in_order_helper None s = Some s"
  by (subst in_order_helper.simps) simp

lemma in_order_helper_keys:
  "heap_tree (heap s) par t \<Longrightarrow>
   in_order_helper (ptr t) s = Some (s\<lparr>cout := cout s @ in_order_text (keys t)\<rparr>)"
proof (induction t arbitrary: s par)
  case Leaf
  show ?case by (simp add: in_order_text_def)
next
  case (Node l a k c r)
  note IHl = Node.IH(1)[where par = "Some a"]
  note IHr = Node.IH(2)[where par = "Some a"]
  from Node.prems show ?case
    by (subst in_order_helper.simps)
       (simp add: rd_def deref_def Let_def IHl IHr in_order_text_def)
qed

lemma in_order_keys:
  "represents s t \<Longrightarrow> in_order s = Some (s\<lparr>cout := cout s @ in_order_text (keys t)\<rparr>)"
  unfolding in_order_def represents_def
  using in_order_helper_keys[of s None t] by simp

section \<open>The calls of a deletion\<close>

lemma repair_calls_bound:
  assumes one: "l = Leaf \<or> r = Leaf"
    and nrr: "no_red_red (plug ctx (Node l n k c r))"
    and bal: "bal (plug ctx (Node l n k c r))"
  shows "length (repair_calls ctx (Node l n k c r)) \<le> Suc (length ctx)"
proof -
  let ?t = "Node l n k c r"
  from nrr have n1: "no_red_red ?t" and n2: "nrr_ctx ctx"
    unfolding no_red_red_plug by simp_all
  from bal have b1: "bal ?t" and b2: "bal_ctx ctx (bh ?t)"
    by (auto simp: bal_plug)
  show ?thesis
  proof (cases "l = Leaf \<and> r = Leaf")
    case leaf: True
    show ?thesis
    proof (cases "ctx \<noteq> [] \<and> c = black")
      case True
      with b2 leaf have "bal_ctx ctx (Suc 0)" by simp
      from fix_double_black_calls_bound[OF n2 this, of n] leaf True show ?thesis
        by (auto split: if_splits)
    next
      case False
      with leaf show ?thesis by auto
    qed
  next
    case child: False
    define m where "m = (if l \<noteq> Leaf then l else r)"
    from child one have m: "(l = m \<and> r = Leaf) \<or> (l = Leaf \<and> r = m)" and mne: "m \<noteq> Leaf"
      by (auto simp: m_def)
    from b1 have "bh l = bh r" by simp
    with m have "bh m = 0" by (elim disjE; simp)
    with mne have "color_of m = red" using bh0_black[of m] by blast
    then have "repair_calls ctx ?t = []"
      using child by (auto simp: m_def Let_def)
    then show ?thesis by simp
  qed
qed

lemma height_Node_pos: "t \<noteq> Leaf \<Longrightarrow> 0 < height t"
  by (cases t) auto

text \<open>The arguments of the calls of \<^verbatim>\<open>delete_helper\<close> when the key \<open>x\<close> is deleted.\<close>

definition delete_helper_args :: "tree \<Rightarrow> int \<Rightarrow> node_p list" where
  "delete_helper_args t x =
     (case find_tree t x of
        Leaf \<Rightarrow> []
      | Node l n k c r \<Rightarrow>
          (if l \<noteq> Leaf \<and> r \<noteq> Leaf then [Some n, ptr (min_tree r)] else [Some n]))"

lemma delete_calls_bound:
  assumes "rbt t" and "x \<in> set (keys t)"
  shows "\<exists>rs. delete_calls (find_path t x []) (find_tree t x)
           = map Delete_helper (delete_helper_args t x)
             @ map (\<lambda>a. Fix_double_black (Some a)) rs
         \<and> length rs \<le> height t"
proof -
  from assms obtain l n c r where ft: "find_tree t x = Node l n x c r"
    using find_tree_Node[of t x] by (auto simp: rbt_def)
  let ?c = "find_path t x []"
  have pl: "plug ?c (Node l n x c r) = t"
    using plug_find_path[of t x "[]"] by (simp add: ft)
  from assms(1) have inv: "no_red_red (plug ?c (Node l n x c r))"
    "bal (plug ?c (Node l n x c r))"
    by (simp_all add: pl rbt_def balanced_bal)
  show ?thesis
  proof (cases "l \<noteq> Leaf \<and> r \<noteq> Leaf")
    case False
    then have one: "l = Leaf \<or> r = Leaf" by simp
    from repair_calls_bound[OF one inv]
    have "length (repair_calls ?c (Node l n x c r)) \<le> Suc (length ?c)" .
    also have "\<dots> \<le> height t"
      using height_plug[of ?c "Node l n x c r"] by (simp add: pl)
    finally have "length (repair_calls ?c (Node l n x c r)) \<le> height t" .
    moreover from False have "delete_calls ?c (Node l n x c r)
        = map Delete_helper (delete_helper_args t x)
          @ map (\<lambda>a. Fix_double_black (Some a)) (repair_calls ?c (Node l n x c r))"
      by (auto simp: delete_calls_def delete_helper_args_def ft simp del: repair_calls.simps)
    ultimately show ?thesis unfolding ft by blast
  next
    case True
    then obtain ma mk mc mr where mt: "min_tree r = Node Leaf ma mk mc mr"
      using min_tree_Node[of r] by auto
    let ?d = "min_path r (RightOf l n mk c # ?c)"
    have "no_red_red (plug ?c (Node l n mk c r)) = no_red_red (plug ?c (Node l n x c r))"
      "bal (plug ?c (Node l n mk c r)) = bal (plug ?c (Node l n x c r))"
      unfolding no_red_red_plug bal_plug by (simp_all split: list.splits)
    with inv min_path_set_key[of r "RightOf l n mk c # ?c" x]
    have inv': "no_red_red (plug ?d (Node Leaf ma x mc mr))" "bal (plug ?d (Node Leaf ma x mc mr))"
      by (simp_all add: mt)
    from repair_calls_bound[OF _ inv']
    have "length (repair_calls ?d (Node Leaf ma x mc mr)) \<le> Suc (length ?d)" by simp
    also have "length ?d = length (min_path r (RightOf l n x c # ?c))"
      using min_path_append[of r "RightOf l n mk c # ?c"]
        min_path_append[of r "RightOf l n x c # ?c"] by simp
    also have "Suc \<dots> \<le> height t"
      using height_plug[of "min_path r (RightOf l n x c # ?c)" "min_tree r"]
        plug_min_path[of r "RightOf l n x c # ?c"] by (simp add: pl mt)
    finally have "length (repair_calls ?d (Node Leaf ma x mc mr)) \<le> height t" .
    moreover from True have "delete_calls ?c (Node l n x c r)
        = map Delete_helper (delete_helper_args t x)
          @ map (\<lambda>a. Fix_double_black (Some a)) (repair_calls ?d (Node Leaf ma x mc mr))"
      by (simp add: delete_calls_def delete_helper_args_def ft mt del: repair_calls.simps)
    ultimately show ?thesis unfolding ft by blast
  qed
qed

text \<open>
  \<^verbatim>\<open>delete_node\<close> for a key of a red-black tree: the tree it leaves, and the calls it
  leads to.
\<close>

lemma delete_node_calls:
  assumes "represents s t" and "rbt t" and "x \<in> set (keys t)"
  shows "\<exists>s' rs. delete_node x s = Some s' \<and> represents s' (a_delete_node x t)
           \<and> calls s' = calls s @ map Delete_helper (delete_helper_args t x)
                          @ map (\<lambda>a. Fix_double_black (Some a)) rs
           \<and> length rs \<le> height t"
proof -
  from assms(1) have "repc s t (calls s)" by (simp add: repc_def)
  from delete_node_refines[OF this _ assms(3)] assms(2)
  obtain s' where "delete_node x s = Some s'" "represents s' (a_delete_node x t)"
    "calls s' = calls s @ delete_calls (find_path t x []) (find_tree t x)"
    by (auto simp: repc_def rbt_def)
  with delete_calls_bound[OF assms(2,3)] show ?thesis by auto
qed

section \<open>Two more concrete trees\<close>

text \<open>
  A black root 10 at address 0 with the black children 5 and 15 at addresses 1 and 2.
\<close>

definition black_state :: RBTree where
  "black_state =
     \<lparr>root = Some 0,
      last_tmp = None,
      tmp_tree = [],
      prefix_tree = [],
      heap = [0 \<mapsto> \<lparr>key = 10, parent = None, left = Some 1, right = Some 2, color = True\<rparr>,
              1 \<mapsto> \<lparr>key = 5, parent = Some 0, left = None, right = None, color = True\<rparr>,
              2 \<mapsto> \<lparr>key = 15, parent = Some 0, left = None, right = None, color = True\<rparr>],
      fresh = 3,
      cout = [],
      calls = []\<rparr>"

definition black_tree :: tree where
  "black_tree = Node (Node Leaf 1 5 True Leaf) 0 10 True (Node Leaf 2 15 True Leaf)"

lemma black_represents: "represents black_state black_tree"
  by (simp add: represents_def black_state_def black_tree_def)

lemma black_rbt: "rbt black_tree"
  by (simp add: rbt_def root_black_def black_tree_def)

text \<open>
  A black root 10 at address 0, its black left child 5 at address 1, its red right child
  20 at address 2, and the black children 15 and 25 of 20 at addresses 3 and 4.
\<close>

definition sibling_state :: RBTree where
  "sibling_state =
     \<lparr>root = Some 0,
      last_tmp = None,
      tmp_tree = [],
      prefix_tree = [],
      heap = [0 \<mapsto> \<lparr>key = 10, parent = None, left = Some 1, right = Some 2, color = True\<rparr>,
              1 \<mapsto> \<lparr>key = 5, parent = Some 0, left = None, right = None, color = True\<rparr>,
              2 \<mapsto> \<lparr>key = 20, parent = Some 0, left = Some 3, right = Some 4, color = False\<rparr>,
              3 \<mapsto> \<lparr>key = 15, parent = Some 2, left = None, right = None, color = True\<rparr>,
              4 \<mapsto> \<lparr>key = 25, parent = Some 2, left = None, right = None, color = True\<rparr>],
      fresh = 5,
      cout = [],
      calls = []\<rparr>"

definition sibling_tree :: tree where
  "sibling_tree =
     Node (Node Leaf 1 5 True Leaf) 0 10 True
       (Node (Node Leaf 3 15 True Leaf) 2 20 False (Node Leaf 4 25 True Leaf))"

lemma sibling_represents: "represents sibling_state sibling_tree"
  by (simp add: represents_def sibling_state_def sibling_tree_def)

lemma sibling_rbt: "rbt sibling_tree"
  by (simp add: rbt_def root_black_def sibling_tree_def)

section \<open>Properties of insertion and deletion\<close>

text \<open>
  C1. On a store that holds a red-black tree (invariants 1 to 5, \<open>rbt\<close>), \<^verbatim>\<open>insert_node\<close>
  and \<^verbatim>\<open>delete_node\<close> return for every key, and the store they leave holds a red-black
  tree again. Hence every list of such operations runs to its end from a red-black
  tree, and after each of its operations (after every prefix of the list) the store
  holds a red-black tree.
\<close>

theorem C1_insert_delete_keep_invariants:
  assumes "represents s t" and "rbt t" and "i \<le> length ops"
  shows "(\<exists>s' t'. insert_node x s = Some s' \<and> represents s' t' \<and> rbt t')
       \<and> (\<exists>s' t'. delete_node x s = Some s' \<and> represents s' t' \<and> rbt t')
       \<and> (\<exists>s' t'. apply_ops (take i ops) s = Some s' \<and> represents s' t' \<and> rbt t')"
proof -
  from insert_node_rbt[OF assms(1,2), of x]
  have 1: "\<exists>s' t'. insert_node x s = Some s' \<and> represents s' t' \<and> rbt t'" by blast
  from delete_node_any[OF assms(1,2), of x]
  have 2: "\<exists>s' t'. delete_node x s = Some s' \<and> represents s' t' \<and> rbt t'" by blast
  from apply_ops_rbt[OF assms(1,2), of "take i ops"]
  have 3: "\<exists>s' t'. apply_ops (take i ops) s = Some s' \<and> represents s' t' \<and> rbt t'" by blast
  from 1 2 3 show ?thesis by blast
qed

theorem C1_insert_delete_keep_invariants_witness:
  "represents example_state example_tree \<and> rbt example_tree
   \<and> (2::nat) \<le> length [Insert 7, Delete 10]
   \<and> (\<exists>s' t'. insert_node 7 example_state = Some s' \<and> represents s' t' \<and> rbt t')
   \<and> (\<exists>s' t'. delete_node 7 example_state = Some s' \<and> represents s' t' \<and> rbt t')
   \<and> (\<exists>s' t'. apply_ops [Insert 7, Delete 10] example_state = Some s'
          \<and> represents s' t' \<and> rbt t')"
  using C1_insert_delete_keep_invariants
          [OF example_represents example_rbt, of 2 "[Insert 7, Delete 10]" 7]
    example_represents example_rbt
  by simp

text \<open>
  C2. Starting from a red-black tree, in particular from the empty tree, after the
  inserts of any list \<open>xs\<close> of keys followed by the deletes of the first \<open>j\<close> keys of any
  list \<open>ys\<close>, the store holds a red-black tree whose keys from left to right are strictly
  increasing, so that no key occurs twice, and are exactly the keys held at the start
  and the keys inserted, without the keys deleted; \<^verbatim>\<open>in_order\<close> then writes these keys
  in this order. The deleted keys need not be present: deleting an absent key leaves
  the tree as it is.
\<close>

theorem C2_deletes_leave_sorted_survivors:
  assumes "represents s t" and "rbt t" and "j \<le> length ys"
  shows "\<exists>s' t'. apply_ops (map Insert xs @ map Delete (take j ys)) s = Some s'
       \<and> represents s' t' \<and> rbt t'
       \<and> sorted_wrt (<) (keys t')
       \<and> set (keys t') = (set (keys t) \<union> set xs) - set (take j ys)
       \<and> in_order s' = Some (s'\<lparr>cout := cout s' @ in_order_text (keys t')\<rparr>)"
proof -
  from apply_ops_rbt[OF assms(1,2), of "map Insert xs @ map Delete (take j ys)"]
  obtain s' t' where
    1: "apply_ops (map Insert xs @ map Delete (take j ys)) s = Some s'"
    "represents s' t'" "rbt t'"
    and 2: "set (keys t') = (set (keys t) \<union> set xs) - set (take j ys)"
    by (auto simp: fold_inserts fold_deletes)
  from 1(3) have "sorted_wrt (<) (keys t')" by (simp add: rbt_def bst_sorted)
  with 1 2 in_order_keys[OF 1(2)] show ?thesis by blast
qed

theorem C2_deletes_leave_sorted_survivors_witness:
  "represents (RBTree_new []) Leaf \<and> rbt Leaf \<and> (1::nat) \<le> length [2, 3::int]
   \<and> (\<exists>s' t'. apply_ops [Insert 2, Insert 1, Insert 3, Delete 2] (RBTree_new []) = Some s'
        \<and> represents s' t' \<and> rbt t'
        \<and> sorted_wrt (<) (keys t')
        \<and> set (keys t') = {1, 3}
        \<and> in_order s' = Some (s'\<lparr>cout := cout s' @ in_order_text (keys t')\<rparr>))"
proof -
  have r: "represents (RBTree_new []) Leaf"
    by (simp add: represents_def RBTree_new_def)
  have b: "rbt Leaf" by (simp add: rbt_def root_black_def)
  have s: "(set (keys Leaf) \<union> set [2, 1, 3]) - set (take 1 [2, 3]) = {1, 3::int}" by auto
  from C2_deletes_leave_sorted_survivors[OF r b, of 1 "[2, 3]" "[2, 1, 3]"] r b
  show ?thesis unfolding s by simp
qed

text \<open>
  C7, as stated, fails. Every call of \<^verbatim>\<open>delete_helper\<close> and \<^verbatim>\<open>fix_double_black\<close> is made
  from the call entered before it, so the number of calls entered is the depth of the
  recursion. In the tree of three black nodes, which has height 2, deleting the leaf 5
  enters \<^verbatim>\<open>delete_helper\<close> once and \<^verbatim>\<open>fix_double_black\<close> twice: the depth is 3. In the
  second tree the sibling of the leaf 5 is red: \<^verbatim>\<open>fix_double_black\<close> rotates and is
  entered again on the same node, which is then one level further from the root, not
  nearer to it.
\<close>

theorem C7_depth_exceeds_height:
  "represents black_state black_tree \<and> rbt black_tree \<and> 5 \<in> set (keys black_tree)
   \<and> height black_tree = 2
   \<and> map_option calls (delete_node 5 black_state)
       = Some [Delete_helper (Some 1), Fix_double_black (Some 1), Fix_double_black (Some 0)]
   \<and> \<not> length [Delete_helper (Some 1), Fix_double_black (Some 1), Fix_double_black (Some 0)]
         \<le> height black_tree
   \<and> represents sibling_state sibling_tree \<and> rbt sibling_tree
   \<and> 5 \<in> set (keys sibling_tree)
   \<and> map_option calls (delete_node 5 sibling_state)
       = Some [Delete_helper (Some 1), Fix_double_black (Some 1), Fix_double_black (Some 1)]"
proof -
  have b: "bst black_tree" "bst sibling_tree"
    using black_rbt sibling_rbt by (simp_all add: rbt_def)
  have k: "5 \<in> set (keys black_tree)" "5 \<in> set (keys sibling_tree)"
    by (simp_all add: black_tree_def sibling_tree_def)
  have h: "height black_tree = 2" by (simp add: black_tree_def)
  have c: "calls black_state = []" "calls sibling_state = []"
    by (simp_all add: black_state_def sibling_state_def)
  have 1: "delete_calls (find_path black_tree 5 []) (find_tree black_tree 5)
      = [Delete_helper (Some 1), Fix_double_black (Some 1), Fix_double_black (Some 0)]"
    by (simp add: delete_calls_def black_tree_def)
  have 2: "delete_calls (find_path sibling_tree 5 []) (find_tree sibling_tree 5)
      = [Delete_helper (Some 1), Fix_double_black (Some 1), Fix_double_black (Some 1)]"
    by (simp add: delete_calls_def sibling_tree_def)
  from black_represents c have "repc black_state black_tree []" by (simp add: repc_def)
  from delete_node_refines[OF this b(1) k(1)] 1
  have 3: "map_option calls (delete_node 5 black_state)
      = Some [Delete_helper (Some 1), Fix_double_black (Some 1), Fix_double_black (Some 0)]"
    by (auto simp: repc_def)
  from sibling_represents c have "repc sibling_state sibling_tree []" by (simp add: repc_def)
  from delete_node_refines[OF this b(2) k(2)] 2
  have 4: "map_option calls (delete_node 5 sibling_state)
      = Some [Delete_helper (Some 1), Fix_double_black (Some 1), Fix_double_black (Some 1)]"
    by (auto simp: repc_def)
  from black_represents black_rbt sibling_represents sibling_rbt k h 3 4 show ?thesis
    by simp
qed

text \<open>
  C7, amended. For a key of a red-black tree \<^verbatim>\<open>delete_node\<close> returns. \<^verbatim>\<open>delete_helper\<close> is
  entered on the node of the key and, when that node has two children, once more, after
  the one key swap, on the leftmost node of its right subtree, which has no left child:
  at most twice. \<^verbatim>\<open>fix_double_black\<close> is entered at most as many times as the tree is
  high, where it may be entered twice in a row on one node. So the depth of the
  recursion is at most the height of the tree plus 2.
\<close>

theorem C7_delete_returns_calls_bounded:
  assumes "represents s t" and "rbt t" and "x \<in> set (keys t)"
  shows "\<exists>s' rs. delete_node x s = Some s'
       \<and> calls s' = calls s @ map Delete_helper (delete_helper_args t x)
                      @ map (\<lambda>a. Fix_double_black (Some a)) rs
       \<and> length (delete_helper_args t x) \<le> 2
       \<and> length rs \<le> height t
       \<and> length (calls s') \<le> length (calls s) + height t + 2"
proof -
  from delete_node_calls[OF assms] obtain s' rs where
    1: "delete_node x s = Some s'"
    "calls s' = calls s @ map Delete_helper (delete_helper_args t x)
                  @ map (\<lambda>a. Fix_double_black (Some a)) rs"
    "length rs \<le> height t" by blast
  have 2: "length (delete_helper_args t x) \<le> 2"
    by (simp add: delete_helper_args_def split: tree.splits)
  from 1 2 have "length (calls s') \<le> length (calls s) + height t + 2" by simp
  with 1 2 show ?thesis by blast
qed

theorem C7_delete_returns_calls_bounded_witness:
  "represents black_state black_tree \<and> rbt black_tree \<and> 10 \<in> set (keys black_tree)
   \<and> (\<exists>s' rs. delete_node 10 black_state = Some s'
        \<and> calls s' = [Delete_helper (Some 0), Delete_helper (Some 2)]
                       @ map (\<lambda>a. Fix_double_black (Some a)) rs
        \<and> length rs \<le> 2
        \<and> length (calls s') \<le> 4)"
proof -
  have k: "10 \<in> set (keys black_tree)" by (simp add: black_tree_def)
  have h: "height black_tree = 2" by (simp add: black_tree_def)
  have c: "calls black_state = []" by (simp add: black_state_def)
  have a: "delete_helper_args black_tree 10 = [Some 0, Some 2]"
    by (simp add: delete_helper_args_def black_tree_def)
  from C7_delete_returns_calls_bounded[OF black_represents black_rbt k]
    black_represents black_rbt k
  show ?thesis unfolding h c a by (simp add: numeral_eq_Suc)
qed

end
